theory Spec2Isabelle
  imports Complex_Main "HOL-Library.AList"
begin

section \<open>Survey specification data\<close>

text \<open>
  The survey object read by \<^verbatim>\<open>_generateSurveyQuestionsLoop\<close>. An option of a discrete
  input has a key and a display value. A question's input names its type, and carries the
  fields the two \<^verbatim>\<open>build\<close> methods read. \<^verbatim>\<open>specify\<close> and \<^verbatim>\<open>skips\<close> are read as
  \<^verbatim>\<open>question.input.specify || []\<close>, so an absent list is the empty list here.
  \<^verbatim>\<open>inputs\<close> and \<^verbatim>\<open>maxLength\<close> are optional: \<open>None\<close> is the absent property.
  A specify entry is passed to \<^verbatim>\<open>_buildLoopStimuli\<close> in place of a question, which
  reads its \<^verbatim>\<open>question\<close> text and its \<^verbatim>\<open>input\<close>. Question indices are numbers.
\<close>

datatype input_kind = DISCRETE | CONTINUOUS

datatype key_class = NUMBERS | LETTERS | OTHER_KEYS

record option_spec =
  opt_key :: string
  opt_value :: string

record skip_entry =
  skip_key :: string
  skip_index :: int

datatype input_spec =
  InputSpec
    (input_type: input_kind)
    (input_inputs: "option_spec list option")
    (input_specify: "specify_entry list")
    (input_skips: "skip_entry list")
    (input_keyList: key_class)
    (input_maxLength: "nat option")
and specify_entry =
  SpecifyEntry
    (specify_key: string)
    (specify_question: string)
    (specify_input: input_spec)

record question_spec =
  q_index :: int
  q_question :: string
  q_input :: input_spec

section \<open>Character case\<close>

text \<open>
  \<^verbatim>\<open>toUpperCase\<close> and \<^verbatim>\<open>toLowerCase\<close> on the ASCII letters; every other character is
  left as it is. The key names and the text buffer of this module are ASCII.
\<close>

definition lower_letters :: string where
  "lower_letters = ''abcdefghijklmnopqrstuvwxyz''"

definition upper_letters :: string where
  "upper_letters = ''ABCDEFGHIJKLMNOPQRSTUVWXYZ''"

definition upper_char :: "char \<Rightarrow> char" where
  "upper_char c = (case map_of (zip lower_letters upper_letters) c of Some d \<Rightarrow> d | None \<Rightarrow> c)"

definition lower_char :: "char \<Rightarrow> char" where
  "lower_char c = (case map_of (zip upper_letters lower_letters) c of Some d \<Rightarrow> d | None \<Rightarrow> c)"

definition toUpperCase :: "string \<Rightarrow> string" where
  "toUpperCase s = map upper_char s"

definition toLowerCase :: "string \<Rightarrow> string" where
  "toLowerCase s = map lower_char s"

section \<open>Continuous input\<close>

text \<open>
  The three key lists. A letter or a digit is the key name of one character; the space
  bar and the dash come under the names \<^verbatim>\<open>space\<close> and \<^verbatim>\<open>minus\<close>.
\<close>

definition LETTERS_keys :: "string list" where
  "LETTERS_keys = map (\<lambda>c. [c]) lower_letters @ [''minus'', ''space'']"

definition FUNCTIONALITY :: "string list" where
  "FUNCTIONALITY = [''return'', ''backspace'', ''enter'']"

definition NUMBERS_keys :: "string list" where
  "NUMBERS_keys = map (\<lambda>c. [c]) ''0123456789''"

text \<open>
  The fields of \<^verbatim>\<open>ContinuousInput\<close>; \<open>c_text\<close> is \<^verbatim>\<open>this.stimuli.text\<close>, the text
  buffer. \<^verbatim>\<open>maxLength\<close> is a natural number; \<^verbatim>\<open>build\<close> takes 10 when it is absent.
  Whether the text element is drawn is rendering and is left out, so \<^verbatim>\<open>reset\<close> only
  empties the buffer.
\<close>

record continuous_input =
  c_specify :: "specify_entry list"
  c_keyList :: key_class
  c_maxLength :: nat
  c_text :: string

text \<open>What \<^verbatim>\<open>optionSelected\<close> returns, for both inputs (the continuous one has no skip).\<close>

record behavior =
  b_value :: string
  b_specify :: "specify_entry option"
  b_skip :: "skip_entry option"

definition c_build :: "key_class \<Rightarrow> nat option \<Rightarrow> specify_entry list \<Rightarrow> continuous_input" where
  "c_build keyList maxLength specify_list =
     \<lparr> c_specify = specify_list, c_keyList = keyList,
       c_maxLength = (case maxLength of None \<Rightarrow> 10 | Some m \<Rightarrow> m),
       c_text = [] \<rparr>"

definition c_getKeys :: "continuous_input \<Rightarrow> string list" where
  "c_getKeys c =
     (case c_keyList c of
        NUMBERS \<Rightarrow> NUMBERS_keys @ FUNCTIONALITY
      | LETTERS \<Rightarrow> LETTERS_keys @ FUNCTIONALITY
      | OTHER_KEYS \<Rightarrow> NUMBERS_keys @ LETTERS_keys @ FUNCTIONALITY)"

definition c_reset :: "continuous_input \<Rightarrow> continuous_input" where
  "c_reset c = c\<lparr>c_text := []\<rparr>"

definition keyIn :: "string \<Rightarrow> continuous_input \<Rightarrow> continuous_input" where
  "keyIn keyName c =
     (if keyName = ''backspace'' then c\<lparr>c_text := butlast (c_text c)\<rparr>
      else if length (c_text c) < c_maxLength c then
        (if keyName = ''space'' then c\<lparr>c_text := c_text c @ '' ''\<rparr>
         else if keyName = ''minus'' then c\<lparr>c_text := c_text c @ ''-''\<rparr>
         else c\<lparr>c_text := c_text c @ toUpperCase keyName\<rparr>)
      else c)"

definition c_optionSelected :: "continuous_input \<Rightarrow> behavior" where
  "c_optionSelected c =
     \<lparr> b_value = c_text c,
       b_specify = find (\<lambda>el. specify_key el = toLowerCase (c_text c)) (c_specify c),
       b_skip = None \<rparr>"

text \<open>
  The keys that reach \<^verbatim>\<open>keyIn\<close>: the state machine asks the host for the keys of
  \<^verbatim>\<open>getKeys()\<close> only, and handles \<^verbatim>\<open>return\<close> and \<^verbatim>\<open>enter\<close> itself.
\<close>

definition appendable :: "continuous_input \<Rightarrow> string \<Rightarrow> bool" where
  "appendable c k \<longleftrightarrow> k \<in> set (c_getKeys c) \<and> k \<noteq> ''return'' \<and> k \<noteq> ''enter''"

section \<open>Discrete input\<close>

text \<open>
  The fields of \<^verbatim>\<open>DiscreteInput\<close>. \<open>d_stimuli\<close> is the object \<^verbatim>\<open>this.stimuli\<close>, from
  an option's key to its display value: assigning an existing key replaces its entry.
  The text elements of the options (colour, visibility) are rendering and are left out, so
  \<^verbatim>\<open>reset\<close> and \<^verbatim>\<open>setAutoDraw\<close> change nothing here.
\<close>

datatype error = TypeError

record discrete_input =
  d_stimuli :: "(string \<times> string) list"
  d_specify :: "specify_entry list"
  d_skips :: "skip_entry list"

text \<open>\<^verbatim>\<open>Object.keys(inputs)\<close> throws when \<^verbatim>\<open>inputs\<close> is absent.\<close>

definition d_build ::
  "option_spec list option \<Rightarrow> specify_entry list \<Rightarrow> skip_entry list \<Rightarrow> error + discrete_input" where
  "d_build els_opt specify_list skip_list =
     (case els_opt of
        None \<Rightarrow> Inl TypeError
      | Some els \<Rightarrow>
          Inr \<lparr> d_stimuli = fold (\<lambda>el stimuli. AList.update (opt_key el) (opt_value el) stimuli) els [],
                d_specify = specify_list, d_skips = skip_list \<rparr>)"

definition d_getKeys :: "discrete_input \<Rightarrow> string list" where
  "d_getKeys d = map fst (d_stimuli d)"

text \<open>\<^verbatim>\<open>this.stimuli[key].stim\<close> throws when the key is not a built option's key.\<close>

definition d_optionSelected :: "string \<Rightarrow> discrete_input \<Rightarrow> error + behavior" where
  "d_optionSelected key d =
     (case map_of (d_stimuli d) key of
        None \<Rightarrow> Inl TypeError
      | Some v \<Rightarrow>
          Inr \<lparr> b_value = v,
                b_specify = find (\<lambda>el. specify_key el = key) (d_specify d),
                b_skip = find (\<lambda>el. skip_key el = key) (d_skips d) \<rparr>)"

section \<open>Survey questions module\<close>

datatype run_status = SURVEY_CONTINUING | SURVEY_SKIPPING | SURVEY_BEGIN_SKIP

text \<open>
  The values of \<^verbatim>\<open>trialStage\<close>: 0, the three named constants, and -1, which the
  \<^verbatim>\<open>switch\<close> sends to its default branch.
\<close>

datatype trial_stage = STAGE_0 | TAKING_DISCRETE | TAKING_CONTINUOUS | DISPLAY_RESPONSE | STAGE_DONE

datatype event = NEXT | FLIP_REPEAT

text \<open>
  The values \<^verbatim>\<open>this.skipIndex\<close> and the index it is compared with can hold, with the
  loose equality \<^verbatim>\<open>==\<close> on them: \<^verbatim>\<open>undefined\<close> equals only itself, a number equals the
  same number, and the string \<^verbatim>\<open>"none"\<close> equals no number.
\<close>

datatype js_index = Undefined | NoneString | Number int

fun loose_eq :: "js_index \<Rightarrow> js_index \<Rightarrow> bool" where
  "loose_eq Undefined Undefined = True"
| "loose_eq NoneString NoneString = True"
| "loose_eq (Number a) (Number b) = (a = b)"
| "loose_eq _ _ = False"

text \<open>
  \<^verbatim>\<open>this.question\<close> is the text element of the prompt, made by \<^verbatim>\<open>_initQuestion\<close>
  with a name, a text, a position and a colour. Nothing gives it an \<^verbatim>\<open>index\<close>
  property, so \<^verbatim>\<open>this.question.index\<close> reads \<^verbatim>\<open>undefined\<close>.
\<close>

definition this_question_index :: js_index where
  "this_question_index = Undefined"

text \<open>
  The \<^verbatim>\<open>choice\<close> of a record: \<^verbatim>\<open>null\<close> at the start, the key of a discrete answer,
  \<^verbatim>\<open>undefined\<close> for a continuous one. \<^verbatim>\<open>choice == null\<close> holds of \<^verbatim>\<open>null\<close> and of
  \<^verbatim>\<open>undefined\<close>.
\<close>

datatype js_choice = Null | UndefinedChoice | Key string

fun is_null :: "js_choice \<Rightarrow> bool" where
  "is_null Null = True"
| "is_null UndefinedChoice = True"
| "is_null (Key k) = False"

record specify_answer =
  sa_question :: string
  sa_choice :: js_choice
  sa_RT :: real
  sa_value :: string

text \<open>
  \<^verbatim>\<open>this.currentData\<close>. Every property is optional, since \<^verbatim>\<open>_SurveyQuestionEnd\<close>
  leaves the empty object \<^verbatim>\<open>{}\<close> behind; \<open>None\<close> is \<^verbatim>\<open>null\<close> or an absent property.
\<close>

record answer_record =
  ar_survey :: "string option"
  ar_question_index :: "int option"
  ar_question :: "string option"
  ar_question_type :: "input_kind option"
  ar_choice :: js_choice
  ar_RT :: "real option"
  ar_value :: "string option"
  ar_specify :: "specify_answer list option"

definition empty_data :: answer_record where
  "empty_data =
     \<lparr> ar_survey = None, ar_question_index = None, ar_question = None,
       ar_question_type = None, ar_choice = UndefinedChoice, ar_RT = None,
       ar_value = None, ar_specify = None \<rparr>"

text \<open>
  \<^verbatim>\<open>this.specify\<close>: the empty object set by \<^verbatim>\<open>_SurveyQuestionBegin\<close>, or what the
  last \<^verbatim>\<open>optionSelected\<close> returned, a specify entry or \<^verbatim>\<open>undefined\<close>.
\<close>

datatype specify_slot = EmptyObject | NoSpecify | Follow specify_entry

text \<open>
  A call of the data sink, with the category \<^verbatim>\<open>survey_set + '_' + question_index\<close> kept as
  its two parts.
\<close>

datatype sink_call =
  RecordUnstructuredData "string \<times> int option" answer_record
| AddData "string \<times> int option" answer_record

text \<open>
  The fields of \<^verbatim>\<open>SurveyQuestionsModule\<close>. \<open>clock_reset_at\<close> is the time of the last
  \<^verbatim>\<open>this.clock.reset()\<close>, so that \<^verbatim>\<open>this.clock.getTime()\<close> at time \<open>now\<close> is
  \<open>now - clock_reset_at\<close>. \<open>sink\<close> lists the calls made to the data sink, oldest first.
  \<open>currentInput\<close> is \<open>None\<close> while it is \<^verbatim>\<open>undefined\<close>.
\<close>

record survey_state =
  psiTurk :: bool
  survey_set :: string
  survey_run_status :: run_status
  linger :: real
  question_text :: string
  currentInput :: "input_kind option"
  discreteInput :: discrete_input
  continuousInput :: continuous_input
  currentData :: answer_record
  specify :: specify_slot
  skipIndex :: js_index
  trialStage :: trial_stage
  clock_reset_at :: real
  sink :: "sink_call list"

text \<open>
  What the host hands to one call of a routine: the key presses its event manager holds,
  in the order pressed, and the time. \<^verbatim>\<open>getKeys({keyList})\<close> returns the held keys that
  are in the key list. The event manager is the host's, so \<^verbatim>\<open>clearEvents()\<close> changes
  nothing of the module; what is held at a later call is again the host's to say.
\<close>

record poll =
  pending :: "string list"
  now :: real

definition eventManager_getKeys :: "string list \<Rightarrow> poll \<Rightarrow> string list" where
  "eventManager_getKeys keyList p = filter (\<lambda>k. k \<in> set keyList) (pending p)"

text \<open>
  \<^verbatim>\<open>_buildLoopStimuli\<close>, given the \<^verbatim>\<open>question\<close> text and the \<^verbatim>\<open>input\<close> of a question or
  of a specify entry.
\<close>

definition buildLoopStimuli :: "string \<Rightarrow> input_spec \<Rightarrow> survey_state \<Rightarrow> error + survey_state" where
  "buildLoopStimuli txt inp st =
     (let st1 = st\<lparr>question_text := txt, currentInput := Some (input_type inp)\<rparr>
      in case input_type inp of
           DISCRETE \<Rightarrow>
             (case d_build (input_inputs inp) (input_specify inp) (input_skips inp) of
                Inl e \<Rightarrow> Inl e
              | Inr d \<Rightarrow> Inr (st1\<lparr>discreteInput := d\<rparr>))
         | CONTINUOUS \<Rightarrow>
             Inr (st1\<lparr>continuousInput :=
                    c_build (input_keyList inp) (input_maxLength inp) (input_specify inp)\<rparr>))"

text \<open>
  \<^verbatim>\<open>_SurveyQuestionBegin\<close>, called at time \<open>t\<close>. It always returns \<^verbatim>\<open>NEXT\<close>, so only the
  state is returned. While skipping, it compares \<^verbatim>\<open>this.question.index\<close> with
  \<^verbatim>\<open>this.skipIndex\<close>.
\<close>

definition fresh_data :: "string \<Rightarrow> question_spec \<Rightarrow> answer_record" where
  "fresh_data set_name question =
     \<lparr> ar_survey = Some set_name, ar_question_index = Some (q_index question),
       ar_question = Some (q_question question),
       ar_question_type = Some (input_type (q_input question)),
       ar_choice = Null, ar_RT = None, ar_value = None, ar_specify = Some [] \<rparr>"

definition SurveyQuestionBegin :: "question_spec \<Rightarrow> real \<Rightarrow> survey_state \<Rightarrow> error + survey_state" where
  "SurveyQuestionBegin question t st =
     (if survey_run_status st = SURVEY_SKIPPING \<and> \<not> loose_eq this_question_index (skipIndex st)
      then Inr st
      else
        let st1 = (if survey_run_status st = SURVEY_SKIPPING
                   then st\<lparr>skipIndex := NoneString, survey_run_status := SURVEY_CONTINUING\<rparr>
                   else st);
            st2 = st1\<lparr>clock_reset_at := t,
                      currentData := fresh_data (survey_set st1) question,
                      specify := EmptyObject,
                      skipIndex := NoneString,
                      trialStage := STAGE_0\<rparr>
        in buildLoopStimuli (q_question question) (q_input question) st2)"

text \<open>The calls on \<^verbatim>\<open>this.currentInput\<close>, which is one of the two inputs.\<close>

definition currentInput_getKeys :: "survey_state \<Rightarrow> error + string list" where
  "currentInput_getKeys st =
     (case currentInput st of
        None \<Rightarrow> Inl TypeError
      | Some DISCRETE \<Rightarrow> Inr (d_getKeys (discreteInput st))
      | Some CONTINUOUS \<Rightarrow> Inr (c_getKeys (continuousInput st)))"

text \<open>
  \<^verbatim>\<open>optionSelected\<close> is called with the key in the discrete stage and without an
  argument in the continuous one; the continuous input ignores its argument.
\<close>

definition currentInput_optionSelected :: "string option \<Rightarrow> survey_state \<Rightarrow> error + behavior" where
  "currentInput_optionSelected arg st =
     (case currentInput st of
        None \<Rightarrow> Inl TypeError
      | Some DISCRETE \<Rightarrow>
          (case arg of None \<Rightarrow> Inl TypeError | Some k \<Rightarrow> d_optionSelected k (discreteInput st))
      | Some CONTINUOUS \<Rightarrow> Inr (c_optionSelected (continuousInput st)))"

text \<open>Only the continuous input has \<^verbatim>\<open>keyIn\<close>.\<close>

definition currentInput_keyIn :: "string \<Rightarrow> survey_state \<Rightarrow> error + survey_state" where
  "currentInput_keyIn keyName st =
     (case currentInput st of
        Some CONTINUOUS \<Rightarrow> Inr (st\<lparr>continuousInput := keyIn keyName (continuousInput st)\<rparr>)
      | _ \<Rightarrow> Inl TypeError)"

definition currentInput_reset :: "survey_state \<Rightarrow> error + survey_state" where
  "currentInput_reset st =
     (case currentInput st of
        None \<Rightarrow> Inl TypeError
      | Some DISCRETE \<Rightarrow> Inr st
      | Some CONTINUOUS \<Rightarrow> Inr (st\<lparr>continuousInput := c_reset (continuousInput st)\<rparr>))"

text \<open>
  The block both answering stages carry: when \<^verbatim>\<open>this.currentData.choice == null\<close> the
  answer becomes the record's \<^verbatim>\<open>choice\<close>, \<^verbatim>\<open>RT\<close> and \<^verbatim>\<open>value\<close>, otherwise it is pushed on
  the record's \<^verbatim>\<open>specify\<close> list. The discrete stage passes the key as the choice, the
  continuous stage \<^verbatim>\<open>undefined\<close>.
\<close>

definition record_answer :: "js_choice \<Rightarrow> behavior \<Rightarrow> real \<Rightarrow> survey_state \<Rightarrow> error + survey_state" where
  "record_answer ch b t st =
     (let d = currentData st; rt = t - clock_reset_at st
      in if is_null (ar_choice d)
         then Inr (st\<lparr>currentData := d\<lparr>ar_choice := ch, ar_RT := Some rt, ar_value := Some (b_value b)\<rparr>\<rparr>)
         else (case ar_specify d of
                 None \<Rightarrow> Inl TypeError
               | Some answers \<Rightarrow>
                   Inr (st\<lparr>currentData := d\<lparr>ar_specify := Some (answers @
                          [\<lparr> sa_question = question_text st, sa_choice = ch,
                             sa_RT = rt, sa_value = b_value b \<rparr>])\<rparr>\<rparr>)))"

definition slot_of :: "specify_entry option \<Rightarrow> specify_slot" where
  "slot_of sp = (case sp of None \<Rightarrow> NoSpecify | Some e \<Rightarrow> Follow e)"

text \<open>The body of \<^verbatim>\<open>case TAKING_DISCRETE\<close>, given the keys the host returned.\<close>

definition taking_discrete :: "string list \<Rightarrow> real \<Rightarrow> survey_state \<Rightarrow> error + survey_state" where
  "taking_discrete input t st =
     (case input of
        [] \<Rightarrow> Inr st
      | key # _ \<Rightarrow>
          (case currentInput_optionSelected (Some key) st of
             Inl e \<Rightarrow> Inl e
           | Inr b \<Rightarrow>
               (case record_answer (Key key) b t st of
                  Inl e \<Rightarrow> Inl e
                | Inr st1 \<Rightarrow>
                    let st2 = st1\<lparr>specify := slot_of (b_specify b)\<rparr>;
                        st3 = (case b_skip b of
                                 None \<Rightarrow> st2
                               | Some sk \<Rightarrow> st2\<lparr>skipIndex := Number (skip_index sk)\<rparr>)
                    in Inr (st3\<lparr>trialStage := DISPLAY_RESPONSE, clock_reset_at := t\<rparr>))))"

text \<open>
  The \<^verbatim>\<open>for (const key of input)\<close> loop of \<^verbatim>\<open>case TAKING_CONTINUOUS\<close>. Its body reads
  \<^verbatim>\<open>input[0]\<close> in every iteration, here \<open>keyName\<close>; the loop variable is the head of the
  list still to visit. A submit key ends the loop (\<^verbatim>\<open>break\<close>).
\<close>

fun taking_continuous :: "string \<Rightarrow> string list \<Rightarrow> real \<Rightarrow> survey_state \<Rightarrow> error + survey_state" where
  "taking_continuous keyName [] t st = Inr st"
| "taking_continuous keyName (key # rest) t st =
     (if keyName = ''return'' \<or> keyName = ''enter'' then
        (case currentInput_optionSelected None st of
           Inl e \<Rightarrow> Inl e
         | Inr b \<Rightarrow>
             (case record_answer UndefinedChoice b t st of
                Inl e \<Rightarrow> Inl e
              | Inr st1 \<Rightarrow>
                  Inr (st1\<lparr>specify := slot_of (b_specify b),
                           trialStage := DISPLAY_RESPONSE, clock_reset_at := t\<rparr>)))
      else
        (case currentInput_keyIn keyName st of
           Inl e \<Rightarrow> Inl e
         | Inr st1 \<Rightarrow> taking_continuous keyName rest t st1))"

text \<open>
  The body of \<^verbatim>\<open>case DISPLAY_RESPONSE\<close>. The empty object is truthy, and
  \<^verbatim>\<open>_buildLoopStimuli\<close> throws on it when it reads the type of its absent input.
\<close>

definition display_response :: "real \<Rightarrow> survey_state \<Rightarrow> error + survey_state" where
  "display_response t st =
     (if t - clock_reset_at st \<ge> linger st then
        (case currentInput_reset st of
           Inl e \<Rightarrow> Inl e
         | Inr st1 \<Rightarrow>
             (case specify st1 of
                NoSpecify \<Rightarrow>
                  Inr ((if \<not> loose_eq (skipIndex st1) NoneString
                        then st1\<lparr>survey_run_status := SURVEY_BEGIN_SKIP\<rparr>
                        else st1)\<lparr>trialStage := STAGE_DONE\<rparr>)
              | Follow sp \<Rightarrow>
                  (case buildLoopStimuli (specify_question sp) (specify_input sp) st1 of
                     Inl e \<Rightarrow> Inl e
                   | Inr st2 \<Rightarrow> Inr (st2\<lparr>trialStage := STAGE_0\<rparr>))
              | EmptyObject \<Rightarrow> Inl TypeError))
      else Inr st)"

text \<open>\<^verbatim>\<open>_SurveyQuestionLoop\<close>, called with what the host holds at that call.\<close>

definition repeat :: "error + survey_state \<Rightarrow> error + event \<times> survey_state" where
  "repeat r = (case r of Inl e \<Rightarrow> Inl e | Inr st \<Rightarrow> Inr (FLIP_REPEAT, st))"

definition SurveyQuestionLoop :: "poll \<Rightarrow> survey_state \<Rightarrow> error + event \<times> survey_state" where
  "SurveyQuestionLoop p st =
     (if survey_run_status st = SURVEY_SKIPPING then Inr (NEXT, st)
      else case trialStage st of
        STAGE_0 \<Rightarrow>
          (case currentInput st of
             None \<Rightarrow> Inl TypeError
           | Some kind \<Rightarrow>
               Inr (FLIP_REPEAT,
                    st\<lparr>trialStage := (if kind = CONTINUOUS then TAKING_CONTINUOUS else TAKING_DISCRETE)\<rparr>))
      | TAKING_DISCRETE \<Rightarrow>
          (case currentInput_getKeys st of
             Inl e \<Rightarrow> Inl e
           | Inr keyList \<Rightarrow> repeat (taking_discrete (eventManager_getKeys keyList p) (now p) st))
      | TAKING_CONTINUOUS \<Rightarrow>
          (case currentInput_getKeys st of
             Inl e \<Rightarrow> Inl e
           | Inr keyList \<Rightarrow>
               (case eventManager_getKeys keyList p of
                  [] \<Rightarrow> Inr (FLIP_REPEAT, st)
                | keyName # rest \<Rightarrow>
                    repeat (taking_continuous keyName (keyName # rest) (now p) st)))
      | DISPLAY_RESPONSE \<Rightarrow> repeat (display_response (now p) st)
      | STAGE_DONE \<Rightarrow> Inr (NEXT, st))"

text \<open>\<^verbatim>\<open>_SurveyQuestionEnd\<close>; it always returns \<^verbatim>\<open>NEXT\<close>.\<close>

definition SurveyQuestionEnd :: "survey_state \<Rightarrow> survey_state" where
  "SurveyQuestionEnd st =
     (if survey_run_status st = SURVEY_SKIPPING then st
      else
        let st1 = (if survey_run_status st = SURVEY_BEGIN_SKIP
                   then st\<lparr>survey_run_status := SURVEY_SKIPPING\<rparr> else st);
            category = (survey_set st1, ar_question_index (currentData st1));
            call = (if psiTurk st1 then RecordUnstructuredData category (currentData st1)
                    else AddData category (currentData st1))
        in st1\<lparr>sink := sink st1 @ [call], currentData := empty_data\<rparr>)"

text \<open>
  What \<^verbatim>\<open>case DISPLAY_RESPONSE\<close> needs in order not to throw once the linger time is
  over: a current input, a \<^verbatim>\<open>this.specify\<close> that came from \<^verbatim>\<open>optionSelected\<close>, and, for
  a discrete follow-up question, its \<^verbatim>\<open>inputs\<close>.
\<close>

definition follow_up_builds :: "survey_state \<Rightarrow> bool" where
  "follow_up_builds st \<longleftrightarrow>
     currentInput st \<noteq> None \<and>
     (case specify st of
        EmptyObject \<Rightarrow> False
      | NoSpecify \<Rightarrow> True
      | Follow sp \<Rightarrow>
          input_type (specify_input sp) = CONTINUOUS \<or> input_inputs (specify_input sp) \<noteq> None)"

text \<open>
  What the calls of \<^verbatim>\<open>_SurveyQuestionLoop\<close> on a question that is being asked leave
  alone: the data sink and what decides the sink call of \<^verbatim>\<open>_SurveyQuestionEnd\<close>; and the
  status does not become \<^verbatim>\<open>SURVEY_SKIPPING\<close>.
\<close>

definition loop_keeps :: "survey_state \<Rightarrow> survey_state \<Rightarrow> bool" where
  "loop_keeps st st' \<longleftrightarrow>
     sink st' = sink st \<and> psiTurk st' = psiTurk st \<and> survey_set st' = survey_set st \<and>
     ar_question_index (currentData st') = ar_question_index (currentData st) \<and>
     survey_run_status st' \<noteq> SURVEY_SKIPPING"

text \<open>
  The test on which \<^verbatim>\<open>_SurveyQuestionBegin\<close> returns at once: the status is skipping and
  \<^verbatim>\<open>this.question.index\<close> does not equal \<^verbatim>\<open>this.skipIndex\<close>. It is the code's test,
  and does not depend on the question the function is given; in particular it holds of the
  question whose index is the pending skip target.
\<close>

definition begin_returns_at_once :: "survey_state \<Rightarrow> bool" where
  "begin_returns_at_once st \<longleftrightarrow>
     survey_run_status st = SURVEY_SKIPPING \<and> \<not> loose_eq this_question_index (skipIndex st)"

section \<open>Scheduling a survey\<close>

text \<open>
  The survey resource. \<^verbatim>\<open>survey.instructions || ''\<close> makes an absent text the empty one.
  \<^verbatim>\<open>survey.questions.map\<close> throws when \<^verbatim>\<open>questions\<close> is absent (\<open>None\<close>).
\<close>

record survey =
  sv_set :: string
  sv_linger :: real
  sv_instructions :: string
  sv_questions :: "question_spec list option"

text \<open>
  The functions \<^verbatim>\<open>_generateSurveyQuestionsLoop\<close> adds to the scheduler: the one that shows
  the survey's instructions, then four for each question of the list, in its order.
\<close>

datatype task =
  InstructionsTask string string
| BeginTask question_spec
| LoopTask
| EndTask
| FinishTask

definition question_tasks :: "question_spec \<Rightarrow> task list" where
  "question_tasks question = [BeginTask question, LoopTask, EndTask, FinishTask]"

definition generateSurveyQuestionsLoop :: "survey \<Rightarrow> survey_state \<Rightarrow> error + task list \<times> survey_state" where
  "generateSurveyQuestionsLoop sv st =
     (case sv_questions sv of
        None \<Rightarrow> Inl TypeError
      | Some questions \<Rightarrow>
          Inr (InstructionsTask (sv_set sv) (sv_instructions sv) # concat (map question_tasks questions),
               st\<lparr>linger := sv_linger sv\<rparr>))"

text \<open>
  The first scheduled function sets the survey's name, the status and the text on every
  call, then runs \<^verbatim>\<open>_SurveyDisplayInstructions\<close>, which waits for enter or return unless
  the text is empty. The drawing of the prompt is rendering and is left out, here and in
  the question loop.
\<close>

definition SurveyDisplayInstructions :: "poll \<Rightarrow> survey_state \<Rightarrow> event \<times> survey_state" where
  "SurveyDisplayInstructions p st =
     (if question_text st = [] then (NEXT, st)
      else if eventManager_getKeys [''enter'', ''return''] p \<noteq> []
      then (NEXT, st\<lparr>question_text := []\<rparr>)
      else (FLIP_REPEAT, st))"

text \<open>
  One call of a scheduled function. The trial handler of the survey is never advanced by
  this module, so its \<^verbatim>\<open>finished\<close> stays false and the last function of a question only
  tells the host to start its next entry.
\<close>

definition exec_task :: "task \<Rightarrow> poll \<Rightarrow> survey_state \<Rightarrow> error + event \<times> survey_state" where
  "exec_task tk p st =
     (case tk of
        InstructionsTask set_name txt \<Rightarrow>
          Inr (SurveyDisplayInstructions p
                 (st\<lparr>survey_set := set_name, survey_run_status := SURVEY_CONTINUING,
                     question_text := txt\<rparr>))
      | BeginTask question \<Rightarrow>
          (case SurveyQuestionBegin question (now p) st of
             Inl e \<Rightarrow> Inl e
           | Inr st1 \<Rightarrow> Inr (NEXT, st1))
      | LoopTask \<Rightarrow> SurveyQuestionLoop p st
      | EndTask \<Rightarrow> Inr (NEXT, SurveyQuestionEnd st)
      | FinishTask \<Rightarrow> Inr (NEXT, st))"

text \<open>
  The host's scheduler: it calls the first function, again while it answers
  \<^verbatim>\<open>FLIP_REPEAT\<close>, and moves to the following one when it answers \<^verbatim>\<open>NEXT\<close>. The list
  \<open>ps\<close> holds what the host hands to each call in turn; the result is the functions still
  to run when the list is used up.
\<close>

fun run_tasks :: "task list \<Rightarrow> poll list \<Rightarrow> survey_state \<Rightarrow> error + task list \<times> survey_state" where
  "run_tasks [] ps st = Inr ([], st)"
| "run_tasks (tk # tks) [] st = Inr (tk # tks, st)"
| "run_tasks (tk # tks) (p # ps) st =
     (case exec_task tk p st of
        Inl e \<Rightarrow> Inl e
      | Inr (NEXT, st1) \<Rightarrow> run_tasks tks ps st1
      | Inr (FLIP_REPEAT, st1) \<Rightarrow> run_tasks (tk # tks) ps st1)"

section \<open>Instructions module\<close>

definition MAX_INSTRUCTIONS :: nat where
  "MAX_INSTRUCTIONS = 200"

text \<open>
  The cached instructions object \<^verbatim>\<open>this.currInstr\<close> (the names of its slide resources and
  its position), the flag \<^verbatim>\<open>this.slideFinished\<close>, and the images handed to
  \<^verbatim>\<open>this.image.setImage\<close> so far, oldest first.
\<close>

record instructions_state =
  resources :: "string list"
  currentIndex :: int
  slideFinished :: bool
  images_set :: "string list"

definition init_instructions :: "string list \<Rightarrow> instructions_state" where
  "init_instructions names =
     \<lparr> resources = names, currentIndex = 0, slideFinished = False, images_set = [] \<rparr>"

text \<open>
  \<^verbatim>\<open>_InstructionsRoutineBegin\<close>: reading \<^verbatim>\<open>["name"]\<close> of an element outside the list
  throws.
\<close>

definition InstructionsRoutineBegin :: "instructions_state \<Rightarrow> error + instructions_state" where
  "InstructionsRoutineBegin st =
     (if 0 \<le> currentIndex st \<and> currentIndex st < int (length (resources st))
      then Inr (st\<lparr>images_set := images_set st @ [resources st ! nat (currentIndex st)],
                   slideFinished := False\<rparr>)
      else Inl TypeError)"

definition InstructionsRoutineEachFrame :: "string list \<Rightarrow> instructions_state \<Rightarrow> event \<times> instructions_state" where
  "InstructionsRoutineEachFrame held st =
     (let buttonPress = filter (\<lambda>k. k \<in> set [''b'', ''n'', ''f'']) held;
          st1 = (case buttonPress of
                   [] \<Rightarrow> st
                 | k # _ \<Rightarrow>
                     if k = ''n'' \<and> currentIndex st < int (length (resources st)) - 1
                     then st\<lparr>slideFinished := True, currentIndex := currentIndex st + 1\<rparr>
                     else if k = ''b'' \<and> currentIndex st > 0
                     then st\<lparr>slideFinished := True, currentIndex := currentIndex st - 1\<rparr>
                     else if k = ''f'' \<and> currentIndex st = int (length (resources st)) - 1
                     then st\<lparr>slideFinished := True, currentIndex := - 1\<rparr>
                     else st)
      in if slideFinished st1 then (NEXT, st1) else (FLIP_REPEAT, st1))"

text \<open>
  The trial handler of an instructions run is made with \<^verbatim>\<open>nReps: MAX_INSTRUCTIONS\<close> and
  no trial list, which the host makes a list of one trial, so the \<^verbatim>\<open>for\<close> loop over it adds
  its four functions \<^verbatim>\<open>MAX_INSTRUCTIONS\<close> times. The fourth stops the scheduler when the
  position is -1.
\<close>

datatype instructions_task = IBegin | IEachFrame | IEnd | ICheck

definition generateInstructionsLoop :: "instructions_task list" where
  "generateInstructionsLoop = concat (replicate MAX_INSTRUCTIONS [IBegin, IEachFrame, IEnd, ICheck])"

text \<open>
  The scheduler on an instructions run. The third component counts the calls of
  \<^verbatim>\<open>_InstructionsRoutineEachFrame\<close> that answered \<^verbatim>\<open>NEXT\<close>: the navigation steps.
\<close>

fun run_instructions ::
  "instructions_task list \<Rightarrow> string list list \<Rightarrow> instructions_state \<Rightarrow> nat \<Rightarrow>
     error + instructions_task list \<times> instructions_state \<times> nat" where
  "run_instructions [] hs st n = Inr ([], st, n)"
| "run_instructions (tk # tks) [] st n = Inr (tk # tks, st, n)"
| "run_instructions (IBegin # tks) (h # hs) st n =
     (case InstructionsRoutineBegin st of
        Inl e \<Rightarrow> Inl e
      | Inr st1 \<Rightarrow> run_instructions tks hs st1 n)"
| "run_instructions (IEachFrame # tks) (h # hs) st n =
     (case InstructionsRoutineEachFrame h st of
        (NEXT, st1) \<Rightarrow> run_instructions tks hs st1 (Suc n)
      | (FLIP_REPEAT, st1) \<Rightarrow> run_instructions (IEachFrame # tks) hs st1 n)"
| "run_instructions (IEnd # tks) (h # hs) st n = run_instructions tks hs st n"
| "run_instructions (ICheck # tks) (h # hs) st n =
     (if currentIndex st = - 1 then Inr ([], st, n) else run_instructions tks hs st n)"

text \<open>
  The position after one call of \<^verbatim>\<open>_InstructionsRoutineEachFrame\<close>, and the positions
  the stepper is meant to stay in: a slide of the list, or -1 once finished.
\<close>

definition press :: "string list \<Rightarrow> instructions_state \<Rightarrow> instructions_state" where
  "press held st = snd (InstructionsRoutineEachFrame held st)"

definition control_keys :: "string list \<Rightarrow> string list" where
  "control_keys held = filter (\<lambda>k. k \<in> set [''b'', ''n'', ''f'']) held"

definition position_ok :: "instructions_state \<Rightarrow> bool" where
  "position_ok st \<longleftrightarrow>
     currentIndex st = - 1 \<or> (0 \<le> currentIndex st \<and> currentIndex st < int (length (resources st)))"

section \<open>Example inputs\<close>

text \<open>A continuous "please elaborate" input without follow-up.\<close>

definition elaborate_input :: input_spec where
  "elaborate_input = InputSpec CONTINUOUS None [] [] LETTERS (Some 3)"

text \<open>
  A letters input of at most three characters, and the same with a specify entry whose key
  is written with a capital letter.
\<close>

definition short_letters :: continuous_input where
  "short_letters = c_build LETTERS (Some 3) []"

definition Yes_entry :: specify_entry where
  "Yes_entry = SpecifyEntry ''Yes'' ''Why?'' elaborate_input"

definition yes_entry :: specify_entry where
  "yes_entry = SpecifyEntry ''yes'' ''Why?'' elaborate_input"

definition capital_key_input :: continuous_input where
  "capital_key_input = fold keyIn [''y'', ''e'', ''s''] (c_build LETTERS (Some 3) [Yes_entry])"

definition lower_key_input :: continuous_input where
  "lower_key_input = fold keyIn [''y'', ''e'', ''s''] (c_build LETTERS (Some 3) [yes_entry])"

text \<open>A deck of three slides.\<close>

definition three_slides :: instructions_state where
  "three_slides = init_instructions [''intro'', ''keys'', ''ready'']"

text \<open>
  A deck of two slides, and a respondent who goes to the second slide and back a hundred
  times and never presses the finish key. The lists are the keys held at each call of a
  scheduled function: eight calls for a round there and back, and the last round without
  its last two calls.
\<close>

definition two_slides :: instructions_state where
  "two_slides = init_instructions [''intro'', ''ready'']"

definition round_calls :: "string list list" where
  "round_calls = [[], [''n''], [], [], [], [''b''], [], []]"

definition to_and_fro :: "string list list" where
  "to_and_fro = concat (replicate 99 round_calls) @ [[], [''n''], [], [], [], [''b'']]"

text \<open>
  A module before its first question, with a linger time of half a second and no PsiTurk
  instance, and what the host hands to a call at time \<open>t\<close> with the keys \<open>ks\<close> held.
\<close>

definition start_state :: survey_state where
  "start_state =
     \<lparr> psiTurk = False, survey_set = ''demo'', survey_run_status = SURVEY_CONTINUING,
       linger = 1 / 2, question_text = [], currentInput = None,
       discreteInput = \<lparr> d_stimuli = [], d_specify = [], d_skips = [] \<rparr>,
       continuousInput = c_build OTHER_KEYS None [],
       currentData = empty_data, specify = EmptyObject, skipIndex = Undefined,
       trialStage = STAGE_0, clock_reset_at = 0, sink = [] \<rparr>"

definition call_at :: "real \<Rightarrow> string list \<Rightarrow> poll" where
  "call_at t ks = \<lparr> pending = ks, now = t \<rparr>"

definition state_after :: "task list \<Rightarrow> poll list \<Rightarrow> survey_state \<Rightarrow> survey_state" where
  "state_after tks ps st = (case run_tasks tks ps st of Inl e \<Rightarrow> st | Inr (rest, st1) \<Rightarrow> st1)"

text \<open>A yes/no question without follow-up, and the module after the answer \<^verbatim>\<open>y\<close> at time 1.\<close>

definition yes_no :: "option_spec list" where
  "yes_no = [\<lparr> opt_key = ''y'', opt_value = ''Yes'' \<rparr>, \<lparr> opt_key = ''n'', opt_value = ''No'' \<rparr>]"

definition smoker_question :: question_spec where
  "smoker_question =
     \<lparr> q_index = 1, q_question = ''Do you smoke?'',
       q_input = InputSpec DISCRETE (Some yes_no) [] [] OTHER_KEYS None \<rparr>"

definition smoker_asked :: survey_state where
  "smoker_asked = state_after [BeginTask smoker_question, LoopTask] [call_at 0 [], call_at 0 []] start_state"

definition smoker_answered :: survey_state where
  "smoker_answered = state_after [LoopTask] [call_at 1 [''y'']] smoker_asked"

text \<open>
  A free-text question of at most five letters, asked: the module after its begin and the
  stage-0 call.
\<close>

definition name_question :: question_spec where
  "name_question =
     \<lparr> q_index = 2, q_question = ''Your initials?'',
       q_input = InputSpec CONTINUOUS None [] [] LETTERS (Some 5) \<rparr>"

definition name_asked :: survey_state where
  "name_asked = state_after [BeginTask name_question, LoopTask] [call_at 0 [], call_at 0 []] start_state"

text \<open>
  A free-text question whose answer \<^verbatim>\<open>y\<close> leads to a free-text follow-up question, and the
  calls of a respondent who types \<^verbatim>\<open>y\<close> and enter (at time 2), then \<^verbatim>\<open>o\<close>, \<^verbatim>\<open>k\<close> and
  enter (at time 5) on the follow-up.
\<close>

definition other_question :: question_spec where
  "other_question =
     \<lparr> q_index = 4, q_question = ''Any other?'',
       q_input = InputSpec CONTINUOUS None [SpecifyEntry ''y'' ''Which?'' elaborate_input] []
                   LETTERS (Some 1) \<rparr>"

definition other_calls :: "poll list" where
  "other_calls =
     [call_at 0 [], call_at 0 [], call_at 1 [''y''], call_at 2 [''enter''],
      call_at 3 [], call_at 3 [], call_at 4 [''o''], call_at (9 / 2) [''k''], call_at 5 [''enter''],
      call_at 6 [], call_at 6 [], call_at 6 [], call_at 6 []]"

definition other_recorded :: survey_state where
  "other_recorded = state_after (question_tasks other_question) other_calls start_state"

text \<open>
  Three questions of indices 1, 2 and 3, the first of which skips to index 3 on the answer
  \<^verbatim>\<open>n\<close>; and the calls of a respondent who answers \<^verbatim>\<open>n\<close> at time 1 and holds \<^verbatim>\<open>y\<close>
  during the four calls of the third question.
\<close>

definition pets_question :: question_spec where
  "pets_question =
     \<lparr> q_index = 1, q_question = ''Any pets?'',
       q_input = InputSpec DISCRETE (Some yes_no) [] [\<lparr> skip_key = ''n'', skip_index = 3 \<rparr>]
                   OTHER_KEYS None \<rparr>"

definition dogs_question :: question_spec where
  "dogs_question =
     \<lparr> q_index = 2, q_question = ''Any dogs?'',
       q_input = InputSpec DISCRETE (Some yes_no) [] [] OTHER_KEYS None \<rparr>"

definition garden_question :: question_spec where
  "garden_question =
     \<lparr> q_index = 3, q_question = ''A garden?'',
       q_input = InputSpec DISCRETE (Some yes_no) [] [] OTHER_KEYS None \<rparr>"

definition pets_calls :: "poll list" where
  "pets_calls =
     [call_at 0 [], call_at 0 [], call_at 1 [''n''], call_at 2 [], call_at 2 [], call_at 2 [],
      call_at 2 [],
      call_at 2 [], call_at 2 [], call_at 2 [], call_at 2 [],
      call_at 3 [''y''], call_at 3 [''y''], call_at 3 [''y''], call_at 3 [''y'']]"

definition pets_survey_end :: survey_state where
  "pets_survey_end =
     state_after (concat (map question_tasks [pets_question, dogs_question, garden_question]))
       pets_calls start_state"

text \<open>
  The module after the first two of these questions, and the four calls of the third
  question (begin, loop, end, finish), with \<^verbatim>\<open>y\<close> held at each.
\<close>

definition pets_skipping :: survey_state where
  "pets_skipping =
     state_after (concat (map question_tasks [pets_question, dogs_question]))
       (take 11 pets_calls) start_state"

text \<open>
  A survey of two malformed questions: the first has two options under the key \<^verbatim>\<open>y\<close> and
  a skip to an index that no question has; the second is discrete and has no \<^verbatim>\<open>inputs\<close>.
  The calls are those of a respondent who answers \<^verbatim>\<open>y\<close> to the first question at time 1.
\<close>

definition double_key :: "option_spec list" where
  "double_key = [\<lparr> opt_key = ''y'', opt_value = ''Yes'' \<rparr>, \<lparr> opt_key = ''y'', opt_value = ''No'' \<rparr>]"

definition twice_question :: question_spec where
  "twice_question =
     \<lparr> q_index = 1, q_question = ''Twice?'',
       q_input = InputSpec DISCRETE (Some double_key) [] [\<lparr> skip_key = ''n'', skip_index = 9 \<rparr>]
                   OTHER_KEYS None \<rparr>"

definition bare_question :: question_spec where
  "bare_question =
     \<lparr> q_index = 2, q_question = ''Bare?'',
       q_input = InputSpec DISCRETE None [] [] OTHER_KEYS None \<rparr>"

definition malformed_survey :: survey where
  "malformed_survey =
     \<lparr> sv_set = ''demo'', sv_linger = 1 / 2, sv_instructions = [],
       sv_questions = Some [twice_question, bare_question] \<rparr>"

definition malformed_tasks :: "task list" where
  "malformed_tasks =
     InstructionsTask ''demo'' [] # question_tasks twice_question @ question_tasks bare_question"

definition malformed_calls :: "poll list" where
  "malformed_calls =
     [call_at 0 [], call_at 0 [], call_at 0 [], call_at 1 [''y''], call_at 2 [], call_at 2 [],
      call_at 2 [], call_at 2 []]"

definition malformed_presented :: survey_state where
  "malformed_presented = state_after malformed_tasks malformed_calls start_state"

definition garden_calls :: "poll list" where
  "garden_calls = [call_at 3 [''y''], call_at 3 [''y''], call_at 3 [''y''], call_at 3 [''y'']]"

section \<open>Running the examples\<close>

text \<open>The definitions a run of the survey module on a given input unfolds.\<close>

lemmas survey_defs = state_after_def call_at_def start_state_def exec_task_def
  SurveyQuestionBegin_def SurveyQuestionLoop_def SurveyQuestionEnd_def buildLoopStimuli_def
  d_build_def c_build_def fresh_data_def this_question_index_def currentInput_getKeys_def
  currentInput_optionSelected_def currentInput_keyIn_def currentInput_reset_def
  record_answer_def slot_of_def taking_discrete_def display_response_def repeat_def
  eventManager_getKeys_def d_getKeys_def d_optionSelected_def c_getKeys_def
  c_optionSelected_def c_reset_def keyIn_def Let_def empty_data_def
  SurveyDisplayInstructions_def question_tasks_def

lemma smoker_asked_eq:
  "smoker_asked =
     start_state\<lparr>question_text := ''Do you smoke?'', currentInput := Some DISCRETE,
       discreteInput := \<lparr> d_stimuli = [(''y'', ''Yes''), (''n'', ''No'')], d_specify = [], d_skips = [] \<rparr>,
       currentData := fresh_data ''demo'' smoker_question,
       skipIndex := NoneString, trialStage := TAKING_DISCRETE\<rparr>"
  by (simp add: smoker_asked_def smoker_question_def yes_no_def survey_defs)

lemma smoker_answered_eq:
  "smoker_answered =
     smoker_asked\<lparr>
       currentData := (fresh_data ''demo'' smoker_question)
          \<lparr>ar_choice := Key ''y'', ar_RT := Some 1, ar_value := Some ''Yes''\<rparr>,
       specify := NoSpecify, trialStage := DISPLAY_RESPONSE, clock_reset_at := 1\<rparr>"
  unfolding smoker_answered_def smoker_asked_eq
  by (simp add: smoker_question_def survey_defs)

section \<open>Continuous input: properties\<close>

lemma length_toUpperCase: "length (toUpperCase s) = length s"
  by (simp add: toUpperCase_def)

lemma c_getKeys_keyIn: "c_getKeys (keyIn k c) = c_getKeys c"
  by (simp add: keyIn_def c_getKeys_def)

lemma c_maxLength_keyIn: "c_maxLength (keyIn k c) = c_maxLength c"
  by (simp add: keyIn_def)

lemma appendable_keyIn: "appendable (keyIn k c) k' = appendable c k'"
  by (simp add: appendable_def c_getKeys_keyIn)

lemma NUMBERS_keys_single: "list_all (\<lambda>k. length k = 1) NUMBERS_keys"
  by (simp add: NUMBERS_keys_def list_all_iff)

lemma LETTERS_keys_single:
  "list_all (\<lambda>k. k = ''minus'' \<or> k = ''space'' \<or> length k = 1) LETTERS_keys"
  by (auto simp: LETTERS_keys_def list_all_iff)

lemma appendable_single:
  assumes "appendable c k" "k \<noteq> ''backspace''" "k \<noteq> ''space''" "k \<noteq> ''minus''"
  shows "length k = 1"
proof -
  from assms have "k \<in> set NUMBERS_keys \<or> k \<in> set LETTERS_keys"
    by (cases "c_keyList c") (auto simp: appendable_def c_getKeys_def FUNCTIONALITY_def)
  then show ?thesis
  proof
    assume "k \<in> set NUMBERS_keys"
    with NUMBERS_keys_single show ?thesis by (simp add: list_all_iff)
  next
    assume "k \<in> set LETTERS_keys"
    with LETTERS_keys_single assms(3,4) show ?thesis by (auto simp: list_all_iff)
  qed
qed

lemma keyIn_bounded:
  assumes "appendable c k" "length (c_text c) \<le> c_maxLength c"
  shows "length (c_text (keyIn k c)) \<le> c_maxLength c"
proof (cases "k = ''backspace''")
  case True
  with assms show ?thesis by (simp add: keyIn_def)
next
  case False
  show ?thesis
  proof (cases "k = ''space'' \<or> k = ''minus''")
    case True
    with assms show ?thesis by (auto simp: keyIn_def)
  next
    case no: False
    with False assms have "length k = 1" by (simp add: appendable_single)
    with False no assms show ?thesis by (simp add: keyIn_def length_toUpperCase)
  qed
qed

lemma fold_keyIn_bounded:
  "\<forall>k\<in>set ks. appendable c k \<Longrightarrow> length (c_text c) \<le> c_maxLength c \<Longrightarrow>
     length (c_text (fold keyIn ks c)) \<le> c_maxLength c"
proof (induction ks arbitrary: c)
  case Nil
  then show ?case by simp
next
  case (Cons k ks)
  have "length (c_text (fold keyIn ks (keyIn k c))) \<le> c_maxLength (keyIn k c)"
  proof (rule Cons.IH)
    show "\<forall>k'\<in>set ks. appendable (keyIn k c) k'"
      using Cons.prems(1) by (simp add: appendable_keyIn)
    show "length (c_text (keyIn k c)) \<le> c_maxLength (keyIn k c)"
      using Cons.prems by (simp add: c_maxLength_keyIn keyIn_bounded)
  qed
  then show ?case by (simp add: c_maxLength_keyIn)
qed

lemma keyIn_full:
  "k \<noteq> ''backspace'' \<Longrightarrow> length (c_text c) = c_maxLength c \<Longrightarrow> keyIn k c = c"
  by (simp add: keyIn_def)

text \<open>
  Claim C7. Starting from a buffer no longer than \<^verbatim>\<open>maxLength\<close> (a built input starts
  empty), every sequence of \<^verbatim>\<open>keyIn\<close> calls with keys the state machine passes on keeps the
  buffer within \<^verbatim>\<open>maxLength\<close>; at full length a key other than backspace changes nothing;
  backspace on the empty buffer leaves it empty; and \<^verbatim>\<open>optionSelected\<close> on the empty
  buffer returns the empty string as value.
\<close>

theorem continuous_buffer_invariants:
  "c_text (c_build kl ml sp) = [] \<and>
   ((\<forall>k\<in>set ks. appendable c k) \<and> length (c_text c) \<le> c_maxLength c \<longrightarrow>
      length (c_text (fold keyIn ks c)) \<le> c_maxLength c) \<and>
   (k \<noteq> ''backspace'' \<and> length (c_text c) = c_maxLength c \<longrightarrow> keyIn k c = c) \<and>
   (c_text c = [] \<longrightarrow> c_text (keyIn ''backspace'' c) = []) \<and>
   (c_text c = [] \<longrightarrow> b_value (c_optionSelected c) = [])"
proof (intro conjI impI)
  show "c_text (c_build kl ml sp) = []"
    by (simp add: c_build_def)
next
  assume "(\<forall>k\<in>set ks. appendable c k) \<and> length (c_text c) \<le> c_maxLength c"
  then show "length (c_text (fold keyIn ks c)) \<le> c_maxLength c"
    by (simp add: fold_keyIn_bounded)
next
  assume "k \<noteq> ''backspace'' \<and> length (c_text c) = c_maxLength c"
  then show "keyIn k c = c"
    by (simp add: keyIn_full)
next
  assume "c_text c = []"
  then show "c_text (keyIn ''backspace'' c) = []"
    by (simp add: keyIn_def)
next
  assume "c_text c = []"
  then show "b_value (c_optionSelected c) = []"
    by (simp add: c_optionSelected_def)
qed

lemma short_letters_appendable:
  "\<forall>k\<in>set [''a'', ''b'', ''backspace'', ''c'', ''d'', ''e'']. appendable short_letters k"
  by (simp add: appendable_def c_getKeys_def short_letters_def c_build_def
      LETTERS_keys_def FUNCTIONALITY_def lower_letters_def)

theorem continuous_buffer_invariants_witness:
  "list_all (appendable short_letters) [''a'', ''b'', ''backspace'', ''c'', ''d'', ''e''] \<and>
   length (c_text short_letters) \<le> c_maxLength short_letters \<and>
   length (c_text (fold keyIn [''a'', ''b'', ''backspace'', ''c'', ''d'', ''e''] short_letters)) \<le> 3 \<and>
   c_text (fold keyIn [''a'', ''b'', ''backspace'', ''c'', ''d'', ''e''] short_letters) = ''ACD'' \<and>
   keyIn ''e'' (fold keyIn [''a'', ''c'', ''d''] short_letters) = fold keyIn [''a'', ''c'', ''d''] short_letters \<and>
   c_text (keyIn ''backspace'' short_letters) = [] \<and>
   b_value (c_optionSelected short_letters) = []"
proof -
  have len: "length (c_text short_letters) \<le> c_maxLength short_letters"
    and empty: "c_text short_letters = []" and max: "c_maxLength short_letters = 3"
    by (simp_all add: short_letters_def c_build_def)
  have run: "c_text (fold keyIn [''a'', ''b'', ''backspace'', ''c'', ''d'', ''e''] short_letters) = ''ACD''"
    by (simp add: short_letters_def c_build_def keyIn_def toUpperCase_def upper_char_def
        lower_letters_def upper_letters_def)
  have full: "length (c_text (fold keyIn [''a'', ''c'', ''d''] short_letters))
                = c_maxLength (fold keyIn [''a'', ''c'', ''d''] short_letters)"
    by (simp add: short_letters_def c_build_def keyIn_def toUpperCase_def upper_char_def
        lower_letters_def upper_letters_def)
  note inst = continuous_buffer_invariants
    [of LETTERS "Some 3" "[]" "[''a'', ''b'', ''backspace'', ''c'', ''d'', ''e'']" short_letters
        "''e''"]
  note inst2 = continuous_buffer_invariants
    [of LETTERS "Some 3" "[]" "[]" "fold keyIn [''a'', ''c'', ''d''] short_letters" "''e''"]
  from inst short_letters_appendable len
  have "length (c_text (fold keyIn [''a'', ''b'', ''backspace'', ''c'', ''d'', ''e''] short_letters)) \<le> 3"
    by (simp add: max)
  moreover from inst2 full
  have "keyIn ''e'' (fold keyIn [''a'', ''c'', ''d''] short_letters) = fold keyIn [''a'', ''c'', ''d''] short_letters"
    by simp
  moreover from inst empty have "c_text (keyIn ''backspace'' short_letters) = []" by blast
  moreover from inst empty have "b_value (c_optionSelected short_letters) = []" by blast
  ultimately show ?thesis using short_letters_appendable len run
    by (simp add: list_all_iff)
qed

lemma find_cong_set: "(\<And>x. x \<in> set xs \<Longrightarrow> P x = Q x) \<Longrightarrow> find P xs = find Q xs"
  by (induction xs) auto

text \<open>
  Claim C8, as stated, fails: the entry keyed \<^verbatim>\<open>Yes\<close> equals the buffer \<^verbatim>\<open>YES\<close> when case
  is ignored, and \<^verbatim>\<open>optionSelected\<close> returns no entry.
\<close>

theorem submit_case_insensitive_counterexample:
  "Yes_entry \<in> set (c_specify capital_key_input) \<and>
   toLowerCase (specify_key Yes_entry) = toLowerCase (c_text capital_key_input) \<and>
   b_specify (c_optionSelected capital_key_input) = None"
  by (simp add: capital_key_input_def Yes_entry_def c_build_def keyIn_def c_optionSelected_def
      toUpperCase_def toLowerCase_def upper_char_def lower_char_def lower_letters_def
      upper_letters_def)

text \<open>
  Claim C8, amended. \<^verbatim>\<open>optionSelected\<close> returns the current text as value, and as specify
  the first entry whose key is the lower-cased current text, none when there is no such
  entry. When every specify key is in lower case this is the first entry whose key equals
  the text with case ignored.
\<close>

theorem submit_lower_cased_match:
  "b_value (c_optionSelected c) = c_text c \<and>
   b_specify (c_optionSelected c) =
     find (\<lambda>el. specify_key el = toLowerCase (c_text c)) (c_specify c) \<and>
   ((\<forall>el\<in>set (c_specify c). toLowerCase (specify_key el) = specify_key el) \<longrightarrow>
      b_specify (c_optionSelected c) =
        find (\<lambda>el. toLowerCase (specify_key el) = toLowerCase (c_text c)) (c_specify c))"
proof (intro conjI impI)
  show "b_value (c_optionSelected c) = c_text c"
    by (simp add: c_optionSelected_def)
  show "b_specify (c_optionSelected c) =
          find (\<lambda>el. specify_key el = toLowerCase (c_text c)) (c_specify c)"
    by (simp add: c_optionSelected_def)
  assume low: "\<forall>el\<in>set (c_specify c). toLowerCase (specify_key el) = specify_key el"
  have "find (\<lambda>el. specify_key el = toLowerCase (c_text c)) (c_specify c) =
        find (\<lambda>el. toLowerCase (specify_key el) = toLowerCase (c_text c)) (c_specify c)"
    by (rule find_cong_set) (simp add: low)
  then show "b_specify (c_optionSelected c) =
          find (\<lambda>el. toLowerCase (specify_key el) = toLowerCase (c_text c)) (c_specify c)"
    by (simp add: c_optionSelected_def)
qed

theorem submit_lower_cased_match_witness:
  "list_all (\<lambda>el. toLowerCase (specify_key el) = specify_key el) (c_specify lower_key_input) \<and>
   b_value (c_optionSelected lower_key_input) = ''YES'' \<and>
   b_specify (c_optionSelected lower_key_input) = Some yes_entry \<and>
   find (\<lambda>el. toLowerCase (specify_key el) = toLowerCase (c_text lower_key_input))
     (c_specify lower_key_input) = Some yes_entry"
proof -
  have low: "\<forall>el\<in>set (c_specify lower_key_input). toLowerCase (specify_key el) = specify_key el"
    by (simp add: lower_key_input_def yes_entry_def c_build_def keyIn_def toLowerCase_def
        lower_char_def lower_letters_def upper_letters_def)
  have buf: "c_text lower_key_input = ''YES''"
    by (simp add: lower_key_input_def c_build_def keyIn_def toUpperCase_def upper_char_def
        lower_letters_def upper_letters_def)
  have sp: "c_specify lower_key_input = [yes_entry]"
    by (simp add: lower_key_input_def c_build_def keyIn_def)
  have hit: "find (\<lambda>el. toLowerCase (specify_key el) = toLowerCase (c_text lower_key_input))
               (c_specify lower_key_input) = Some yes_entry"
    unfolding buf sp
    by (simp add: yes_entry_def toLowerCase_def lower_char_def lower_letters_def upper_letters_def)
  note inst = submit_lower_cased_match [of lower_key_input]
  from inst have "b_value (c_optionSelected lower_key_input) = c_text lower_key_input"
    by blast
  moreover from inst low
  have "b_specify (c_optionSelected lower_key_input) =
          find (\<lambda>el. toLowerCase (specify_key el) = toLowerCase (c_text lower_key_input))
            (c_specify lower_key_input)"
    by blast
  ultimately show ?thesis using low hit buf by (simp add: list_all_iff)
qed

section \<open>Instructions module: properties\<close>

lemma press_cases:
  "press held st =
     (case control_keys held of
        [] \<Rightarrow> st
      | k # _ \<Rightarrow>
          if k = ''n'' \<and> currentIndex st < int (length (resources st)) - 1
          then st\<lparr>slideFinished := True, currentIndex := currentIndex st + 1\<rparr>
          else if k = ''b'' \<and> currentIndex st > 0
          then st\<lparr>slideFinished := True, currentIndex := currentIndex st - 1\<rparr>
          else if k = ''f'' \<and> currentIndex st = int (length (resources st)) - 1
          then st\<lparr>slideFinished := True, currentIndex := - 1\<rparr>
          else st)"
  by (simp add: press_def InstructionsRoutineEachFrame_def control_keys_def Let_def
      split: list.splits)

lemma resources_press: "resources (press held st) = resources st"
  by (simp add: press_cases split: list.splits)

lemma position_ok_press: "position_ok st \<Longrightarrow> position_ok (press held st)"
  by (auto simp: press_cases position_ok_def split: list.splits)

lemma position_ok_fold_press: "position_ok st \<Longrightarrow> position_ok (fold press hs st)"
  by (induction hs arbitrary: st) (simp_all add: position_ok_press)

lemma position_ok_init: "names \<noteq> [] \<Longrightarrow> position_ok (init_instructions names)"
  by (simp add: position_ok_def init_instructions_def)

lemma finish_only_at_last:
  assumes "0 \<le> currentIndex st" "currentIndex (press held st) = - 1"
  shows "(\<exists>rest. control_keys held = ''f'' # rest) \<and>
         currentIndex st = int (length (resources st)) - 1"
proof (cases "control_keys held")
  case Nil
  with assms show ?thesis by (simp add: press_cases)
next
  case (Cons k rest)
  with assms show ?thesis
    by (simp add: press_cases split: if_splits)
qed

text \<open>
  Claim C9. From a position that is a slide of the list or the sentinel -1 (the start,
  position 0 of a list that is not empty, is one), every sequence of calls with any keys
  held leaves such a position. When the first control key held is \<^verbatim>\<open>n\<close> at the last
  slide, or \<^verbatim>\<open>b\<close> at the first slide, or \<^verbatim>\<open>f\<close> anywhere but at the last slide, nothing
  changes; \<^verbatim>\<open>f\<close> at the last slide sets the position to -1, and a call that takes a
  slide position to -1 had \<^verbatim>\<open>f\<close> as its first control key at the last slide.
\<close>

theorem instructions_position_bounds:
  "(names \<noteq> [] \<longrightarrow> position_ok (init_instructions names)) \<and>
   (position_ok st \<longrightarrow> position_ok (fold press hs st)) \<and>
   (control_keys held = ''n'' # rest \<and> currentIndex st = int (length (resources st)) - 1
      \<longrightarrow> press held st = st) \<and>
   (control_keys held = ''b'' # rest \<and> currentIndex st = 0 \<longrightarrow> press held st = st) \<and>
   (control_keys held = ''f'' # rest \<and> currentIndex st \<noteq> int (length (resources st)) - 1
      \<longrightarrow> press held st = st) \<and>
   (control_keys held = ''f'' # rest \<and> currentIndex st = int (length (resources st)) - 1
      \<longrightarrow> currentIndex (press held st) = - 1) \<and>
   (0 \<le> currentIndex st \<and> currentIndex (press held st) = - 1 \<longrightarrow>
      (\<exists>rest'. control_keys held = ''f'' # rest') \<and>
      currentIndex st = int (length (resources st)) - 1)"
proof (intro conjI impI)
  assume "names \<noteq> []"
  then show "position_ok (init_instructions names)" by (rule position_ok_init)
next
  assume "position_ok st"
  then show "position_ok (fold press hs st)" by (rule position_ok_fold_press)
next
  assume "control_keys held = ''n'' # rest \<and> currentIndex st = int (length (resources st)) - 1"
  then show "press held st = st" by (simp add: press_cases)
next
  assume "control_keys held = ''b'' # rest \<and> currentIndex st = 0"
  then show "press held st = st" by (simp add: press_cases)
next
  assume "control_keys held = ''f'' # rest \<and> currentIndex st \<noteq> int (length (resources st)) - 1"
  then show "press held st = st" by (simp add: press_cases)
next
  assume "control_keys held = ''f'' # rest \<and> currentIndex st = int (length (resources st)) - 1"
  then show "currentIndex (press held st) = - 1" by (simp add: press_cases)
next
  assume a: "0 \<le> currentIndex st \<and> currentIndex (press held st) = - 1"
  then show "\<exists>rest'. control_keys held = ''f'' # rest'"
    using finish_only_at_last [of st held] by blast
  from a show "currentIndex st = int (length (resources st)) - 1"
    using finish_only_at_last [of st held] by blast
qed

lemma three_slides_walk:
  "fold press [[''n''], [''x'', ''n''], [''n'']] three_slides =
     three_slides\<lparr>slideFinished := True, currentIndex := 2\<rparr>"
  by (simp add: press_cases control_keys_def three_slides_def init_instructions_def)

theorem instructions_position_bounds_witness:
  "position_ok three_slides \<and>
   position_ok (fold press [[''n''], [''x'', ''n''], [''n'']] three_slides) \<and>
   currentIndex (fold press [[''n''], [''x'', ''n''], [''n'']] three_slides) = 2 \<and>
   press [''n''] (fold press [[''n''], [''x'', ''n''], [''n'']] three_slides) =
     fold press [[''n''], [''x'', ''n''], [''n'']] three_slides \<and>
   press [''b'', ''n''] three_slides = three_slides \<and>
   press [''f''] three_slides = three_slides \<and>
   currentIndex (press [''f''] (fold press [[''n''], [''x'', ''n''], [''n'']] three_slides)) = - 1"
proof -
  let ?last = "fold press [[''n''], [''x'', ''n''], [''n'']] three_slides"
  have ne: "[''intro'', ''keys'', ''ready''] \<noteq> []" by simp
  have idx: "currentIndex ?last = 2"
    unfolding three_slides_walk by simp
  have res: "resources ?last = [''intro'', ''keys'', ''ready'']"
    unfolding three_slides_walk by (simp add: three_slides_def init_instructions_def)
  have at_last: "currentIndex ?last = int (length (resources ?last)) - 1"
    unfolding three_slides_walk by (simp add: three_slides_def init_instructions_def)
  have first: "currentIndex three_slides = 0"
    and not_last: "currentIndex three_slides \<noteq> int (length (resources three_slides)) - 1"
    by (simp_all add: three_slides_def init_instructions_def)
  have ck: "control_keys [''n''] = ''n'' # []" "control_keys [''b'', ''n''] = ''b'' # [''n'']"
    "control_keys [''f''] = ''f'' # []"
    by (simp_all add: control_keys_def)
  from instructions_position_bounds [of "[''intro'', ''keys'', ''ready'']"] ne
  have ok0: "position_ok three_slides" by (simp add: three_slides_def)
  from instructions_position_bounds [of _ three_slides "[[''n''], [''x'', ''n''], [''n'']]"] ok0
  have ok1: "position_ok ?last" by blast
  from instructions_position_bounds [of _ ?last _ "[''n'']" "[]"] ck(1) at_last
  have stay: "press [''n''] ?last = ?last" by blast
  from instructions_position_bounds [of _ three_slides _ "[''b'', ''n'']" "[''n'']"] ck(2) first
  have at_first: "press [''b'', ''n''] three_slides = three_slides" by blast
  from instructions_position_bounds [of _ three_slides _ "[''f'']" "[]"] ck(3) not_last
  have early: "press [''f''] three_slides = three_slides" by blast
  from instructions_position_bounds [of _ ?last _ "[''f'']" "[]"] ck(3) at_last
  have fin: "currentIndex (press [''f''] ?last) = - 1" by blast
  from ok0 ok1 idx stay at_first early fin show ?thesis by blast
qed

lemma run_instructions_count:
  "run_instructions ts hs st n = Inr (ts', st', n') \<Longrightarrow>
     n' + count_list ts' IEachFrame \<le> n + count_list ts IEachFrame"
proof (induction ts hs st n rule: run_instructions.induct)
  case (4 tks h hs st n)
  then show ?case
    by (cases "InstructionsRoutineEachFrame h st"; cases "fst (InstructionsRoutineEachFrame h st)")
      auto
qed (auto split: sum.splits if_splits)

lemma run_instructions_drop:
  "run_instructions ts hs st n = Inr (ts', st', n') \<Longrightarrow> \<exists>j. ts' = drop j ts"
proof (induction ts hs st n rule: run_instructions.induct)
  case (1 hs st n)
  then show ?case by simp
next
  case (2 tk tks st n)
  then have "ts' = drop 0 (tk # tks)" by simp
  then show ?case by blast
next
  case (3 tks h hs st n)
  then obtain j where "ts' = drop j tks" by (auto split: sum.splits)
  then have "ts' = drop (Suc j) (IBegin # tks)" by simp
  then show ?case by blast
next
  case (4 tks h hs st n)
  obtain ev st1 where r: "InstructionsRoutineEachFrame h st = (ev, st1)" by (cases "InstructionsRoutineEachFrame h st")
  show ?case
  proof (cases ev)
    case NEXT
    with 4 r obtain j where "ts' = drop j tks" by auto
    then have "ts' = drop (Suc j) (IEachFrame # tks)" by simp
    then show ?thesis by blast
  next
    case FLIP_REPEAT
    with 4 r show ?thesis by auto
  qed
next
  case (5 tks h hs st n)
  then obtain j where "ts' = drop j tks" by auto
  then have "ts' = drop (Suc j) (IEnd # tks)" by simp
  then show ?case by blast
next
  case (6 tks h hs st n)
  show ?case
  proof (cases "currentIndex st = - 1")
    case True
    with 6 have "ts' = drop (length (ICheck # tks)) (ICheck # tks)" by simp
    then show ?thesis by blast
  next
    case False
    with 6 obtain j where "ts' = drop j tks" by auto
    then have "ts' = drop (Suc j) (ICheck # tks)" by simp
    then show ?thesis by blast
  qed
qed

lemma count_each_frame_blocks:
  "count_list (concat (replicate k [IBegin, IEachFrame, IEnd, ICheck])) IEachFrame = k"
  by (induction k) simp_all

lemma count_begin_blocks:
  "count_list (concat (replicate k [IBegin, IEachFrame, IEnd, ICheck])) IBegin = k"
  by (induction k) simp_all

lemma drop_block:
  "IEachFrame \<notin> set (drop j [IBegin, IEachFrame, IEnd, ICheck]) \<Longrightarrow>
     set (drop j [IBegin, IEachFrame, IEnd, ICheck]) \<subseteq> {IEnd, ICheck}"
proof (cases j)
  case 0
  assume "IEachFrame \<notin> set (drop j [IBegin, IEachFrame, IEnd, ICheck])"
  with 0 show ?thesis by simp
next
  case (Suc m)
  assume a: "IEachFrame \<notin> set (drop j [IBegin, IEachFrame, IEnd, ICheck])"
  show ?thesis
  proof (cases m)
    case 0
    with Suc a show ?thesis by simp
  next
    case (Suc i)
    have "set (drop i [IEnd, ICheck]) \<subseteq> set [IEnd, ICheck]" by (rule set_drop_subset)
    with \<open>j = Suc m\<close> Suc show ?thesis by simp
  qed
qed

lemma drop_blocks_tail:
  "IEachFrame \<notin> set (drop j (concat (replicate k [IBegin, IEachFrame, IEnd, ICheck]))) \<Longrightarrow>
     set (drop j (concat (replicate k [IBegin, IEachFrame, IEnd, ICheck]))) \<subseteq> {IEnd, ICheck}"
proof (induction k arbitrary: j)
  case 0
  then show ?case by simp
next
  case (Suc k)
  let ?block = "[IBegin, IEachFrame, IEnd, ICheck]"
  have eq: "concat (replicate (Suc k) ?block) = ?block @ concat (replicate k ?block)"
    by simp
  have split: "drop j (concat (replicate (Suc k) ?block)) =
                 drop j ?block @ drop (j - 4) (concat (replicate k ?block))"
    unfolding eq drop_append by (simp add: eval_nat_numeral)
  from Suc.prems have a: "IEachFrame \<notin> set (drop j ?block)"
    and b: "IEachFrame \<notin> set (drop (j - 4) (concat (replicate k ?block)))"
    unfolding split by simp_all
  from a have "set (drop j ?block) \<subseteq> {IEnd, ICheck}" by (rule drop_block)
  moreover from b have "set (drop (j - 4) (concat (replicate k ?block))) \<subseteq> {IEnd, ICheck}"
    by (rule Suc.IH)
  ultimately show ?case unfolding split by simp
qed

text \<open>
  Claim C10. An instructions run is scheduled with 200 slide displays and 200 waits for a
  key. Whatever keys are held at the calls, a run makes at most 200 navigation steps, and
  after the 200th only the functions that end the slide are left, which wait for no key.
\<close>

theorem instructions_run_bounded:
  "MAX_INSTRUCTIONS = 200 \<and>
   count_list generateInstructionsLoop IBegin = 200 \<and>
   count_list generateInstructionsLoop IEachFrame = 200 \<and>
   (run_instructions generateInstructionsLoop hs st 0 = Inr (ts', st', n) \<longrightarrow>
      n \<le> 200 \<and> (n = 200 \<longrightarrow> set ts' \<subseteq> {IEnd, ICheck}))"
proof (intro conjI impI)
  show "MAX_INSTRUCTIONS = 200" by (simp add: MAX_INSTRUCTIONS_def)
  show "count_list generateInstructionsLoop IBegin = 200"
    by (simp add: generateInstructionsLoop_def count_begin_blocks MAX_INSTRUCTIONS_def)
  show each: "count_list generateInstructionsLoop IEachFrame = 200"
    by (simp add: generateInstructionsLoop_def count_each_frame_blocks MAX_INSTRUCTIONS_def)
  assume run: "run_instructions generateInstructionsLoop hs st 0 = Inr (ts', st', n)"
  from run_instructions_count [OF run] each
  have le: "n + count_list ts' IEachFrame \<le> 200" by simp
  then show "n \<le> 200" by simp
  assume "n = 200"
  with le have "count_list ts' IEachFrame = 0" by simp
  then have none: "IEachFrame \<notin> set ts'" by (simp add: count_list_0_iff)
  from run_instructions_drop [OF run] obtain j where j: "ts' = drop j generateInstructionsLoop"
    by blast
  from none show "set ts' \<subseteq> {IEnd, ICheck}"
    unfolding j generateInstructionsLoop_def by (rule drop_blocks_tail)
qed

lemma one_round:
  assumes "length (resources st) = 2" "currentIndex st = 0"
  shows "run_instructions ([IBegin, IEachFrame, IEnd, ICheck, IBegin, IEachFrame, IEnd, ICheck] @ ts)
           (round_calls @ hs) st n =
         run_instructions ts hs
           (st\<lparr>images_set := images_set st @ [resources st ! 0, resources st ! Suc 0],
               slideFinished := True, currentIndex := 0\<rparr>) (Suc (Suc n))"
  using assms
  by (simp add: round_calls_def InstructionsRoutineBegin_def InstructionsRoutineEachFrame_def)

lemma rounds:
  "length (resources st) = 2 \<Longrightarrow> currentIndex st = 0 \<Longrightarrow>
     \<exists>st'. length (resources st') = 2 \<and> currentIndex st' = 0 \<and>
       run_instructions
         (concat (replicate k [IBegin, IEachFrame, IEnd, ICheck, IBegin, IEachFrame, IEnd, ICheck]) @ ts)
         (concat (replicate k round_calls) @ hs) st n = run_instructions ts hs st' (n + 2 * k)"
proof (induction k arbitrary: st n)
  case 0
  then show ?case by auto
next
  case (Suc k)
  let ?b = "[IBegin, IEachFrame, IEnd, ICheck, IBegin, IEachFrame, IEnd, ICheck]"
  let ?st1 = "st\<lparr>images_set := images_set st @ [resources st ! 0, resources st ! Suc 0],
                 slideFinished := True, currentIndex := 0\<rparr>"
  have r1: "run_instructions (?b @ concat (replicate k ?b) @ ts)
               (round_calls @ concat (replicate k round_calls) @ hs) st n =
             run_instructions (concat (replicate k ?b) @ ts) (concat (replicate k round_calls) @ hs) ?st1 (Suc (Suc n))"
    using Suc.prems by (rule one_round)
  have st1: "length (resources ?st1) = 2" "currentIndex ?st1 = 0"
    using Suc.prems by simp_all
  from Suc.IH [OF st1, of "Suc (Suc n)"] obtain st' where
    st': "length (resources st') = 2" "currentIndex st' = 0"
    and r2: "run_instructions (concat (replicate k ?b) @ ts) (concat (replicate k round_calls) @ hs) ?st1 (Suc (Suc n)) =
             run_instructions ts hs st' (Suc (Suc n) + 2 * k)"
    by blast
  have "run_instructions (concat (replicate (Suc k) ?b) @ ts)
          (concat (replicate (Suc k) round_calls) @ hs) st n = run_instructions ts hs st' (n + 2 * Suc k)"
    using r1 r2 by (simp del: run_instructions.simps)
  with st' show ?case by blast
qed

lemma blocks_paired:
  "concat (replicate (2 * k) [IBegin, IEachFrame, IEnd, ICheck]) =
     concat (replicate k [IBegin, IEachFrame, IEnd, ICheck, IBegin, IEachFrame, IEnd, ICheck])"
  by (induction k) simp_all

lemma schedule_paired: "generateInstructionsLoop =
   concat (replicate 99 [IBegin, IEachFrame, IEnd, ICheck, IBegin, IEachFrame, IEnd, ICheck]) @
   [IBegin, IEachFrame, IEnd, ICheck, IBegin, IEachFrame, IEnd, ICheck]"
proof -
  let ?b = "[IBegin, IEachFrame, IEnd, ICheck, IBegin, IEachFrame, IEnd, ICheck]"
  have "generateInstructionsLoop = concat (replicate (2 * (99 + 1)) [IBegin, IEachFrame, IEnd, ICheck])"
    by (simp add: generateInstructionsLoop_def MAX_INSTRUCTIONS_def)
  also have "\<dots> = concat (replicate (99 + 1) ?b)"
    by (rule blocks_paired)
  also have "\<dots> = concat (replicate 99 ?b) @ ?b"
    unfolding replicate_add by simp
  finally show ?thesis .
qed

theorem instructions_run_bounded_witness:
  "(\<exists>st'. run_instructions generateInstructionsLoop to_and_fro two_slides 0 =
            Inr ([IEnd, ICheck], st', 200)) \<and>
   (200::nat) \<le> 200 \<and> set [IEnd, ICheck] \<subseteq> {IEnd, ICheck}"
proof -
  let ?b = "[IBegin, IEachFrame, IEnd, ICheck, IBegin, IEachFrame, IEnd, ICheck]"
  have s: "length (resources two_slides) = 2" "currentIndex two_slides = 0"
    by (simp_all add: two_slides_def init_instructions_def)
  from rounds [OF s, of 99 ?b "[[], [''n''], [], [], [], [''b'']]" 0]
  obtain st1 where st1: "length (resources st1) = 2" "currentIndex st1 = 0"
    and r: "run_instructions generateInstructionsLoop to_and_fro two_slides 0 =
            run_instructions ?b [[], [''n''], [], [], [], [''b'']] st1 (0 + 2 * 99)"
    unfolding schedule_paired to_and_fro_def by blast
  from st1 have "\<exists>st'. run_instructions ?b [[], [''n''], [], [], [], [''b'']] st1 (0 + 2 * 99) =
                         Inr ([IEnd, ICheck], st', 200)"
    by (simp add: InstructionsRoutineBegin_def InstructionsRoutineEachFrame_def)
  with r obtain st' where
    run: "run_instructions generateInstructionsLoop to_and_fro two_slides 0 =
            Inr ([IEnd, ICheck], st', 200)"
    by auto
  from instructions_run_bounded [of to_and_fro two_slides "[IEnd, ICheck]" st' 200] run
  have "(200::nat) \<le> 200 \<and> set [IEnd, ICheck] \<subseteq> {IEnd, ICheck}"
    by blast
  with run show ?thesis by blast
qed

section \<open>Survey questions module: the linger time\<close>

lemma display_early:
  "t - clock_reset_at st < linger st \<Longrightarrow> display_response t st = Inr st"
  by (simp add: display_response_def)

lemma loop_display_early:
  assumes "trialStage st = DISPLAY_RESPONSE" "survey_run_status st \<noteq> SURVEY_SKIPPING"
    "now p - clock_reset_at st < linger st"
  shows "SurveyQuestionLoop p st = Inr (FLIP_REPEAT, st)"
  using assms by (simp add: SurveyQuestionLoop_def display_early repeat_def)

lemma run_display_early:
  assumes "trialStage st = DISPLAY_RESPONSE" "survey_run_status st \<noteq> SURVEY_SKIPPING"
    "\<forall>p\<in>set ps. now p - clock_reset_at st < linger st"
  shows "run_tasks (LoopTask # tks) (ps @ qs) st = run_tasks (LoopTask # tks) qs st"
  using assms(3)
proof (induction ps)
  case Nil
  then show ?case by simp
next
  case (Cons p ps)
  then have "SurveyQuestionLoop p st = Inr (FLIP_REPEAT, st)"
    using assms(1,2) by (simp add: loop_display_early)
  with Cons show ?case by (simp add: exec_task_def)
qed

lemma buildLoopStimuli_builds:
  "input_type inp = CONTINUOUS \<or> input_inputs inp \<noteq> None \<Longrightarrow>
     \<exists>st'. buildLoopStimuli txt inp st = Inr st'"
  by (cases "input_type inp") (auto simp: buildLoopStimuli_def d_build_def Let_def)

lemma display_late:
  assumes "linger st \<le> t - clock_reset_at st" "follow_up_builds st"
  shows "\<exists>st'. display_response t st = Inr st' \<and>
           (trialStage st' = STAGE_DONE \<or> trialStage st' = STAGE_0)"
proof -
  from assms(2) obtain kind where kind: "currentInput st = Some kind"
    by (auto simp: follow_up_builds_def)
  then obtain st1 where reset: "currentInput_reset st = Inr st1" and sp: "specify st1 = specify st"
    by (cases kind) (auto simp: currentInput_reset_def)
  show ?thesis
  proof (cases "specify st")
    case EmptyObject
    with assms(2) show ?thesis by (simp add: follow_up_builds_def)
  next
    case NoSpecify
    with assms(1) reset sp show ?thesis by (simp add: display_response_def)
  next
    case (Follow e)
    with assms(2) have "input_type (specify_input e) = CONTINUOUS \<or> input_inputs (specify_input e) \<noteq> None"
      by (simp add: follow_up_builds_def)
    then obtain st2 where "buildLoopStimuli (specify_question e) (specify_input e) st1 = Inr st2"
      using buildLoopStimuli_builds by blast
    with assms(1) reset sp Follow show ?thesis by (simp add: display_response_def)
  qed
qed

lemma taking_continuous_display:
  "taking_continuous k ks t st = Inr st' \<Longrightarrow> trialStage st \<noteq> DISPLAY_RESPONSE \<Longrightarrow>
   trialStage st' = DISPLAY_RESPONSE \<Longrightarrow>
     clock_reset_at st' = t \<and> currentInput st' \<noteq> None \<and> specify st' \<noteq> EmptyObject"
proof (induction k ks t st rule: taking_continuous.induct)
  case (1 keyName t st)
  then show ?case by simp
next
  case (2 keyName key rest t st)
  show ?case
  proof (cases "keyName = ''return'' \<or> keyName = ''enter''")
    case True
    with 2(2) show ?thesis
      by (auto simp: currentInput_optionSelected_def record_answer_def slot_of_def Let_def
          split: sum.splits option.splits if_splits input_kind.splits)
  next
    case False
    with 2(2) obtain st1 where k: "currentInput_keyIn keyName st = Inr st1"
      and r: "taking_continuous keyName rest t st1 = Inr st'"
      by (auto split: sum.splits)
    from k have "trialStage st1 = trialStage st"
      by (auto simp: currentInput_keyIn_def split: option.splits input_kind.splits)
    with 2(1) [OF False k r] 2(3,4) show ?thesis by simp
  qed
qed

lemma taking_discrete_display:
  "taking_discrete input t st = Inr st' \<Longrightarrow> trialStage st \<noteq> DISPLAY_RESPONSE \<Longrightarrow>
   trialStage st' = DISPLAY_RESPONSE \<Longrightarrow>
     clock_reset_at st' = t \<and> currentInput st' \<noteq> None \<and> specify st' \<noteq> EmptyObject"
  by (auto simp: taking_discrete_def currentInput_optionSelected_def record_answer_def
      slot_of_def Let_def
      split: list.splits sum.splits option.splits if_splits input_kind.splits)

lemma loop_enters_display:
  assumes "SurveyQuestionLoop p st = Inr (ev, st')" "trialStage st \<noteq> DISPLAY_RESPONSE"
    "trialStage st' = DISPLAY_RESPONSE"
  shows "clock_reset_at st' = now p \<and> currentInput st' \<noteq> None \<and> specify st' \<noteq> EmptyObject"
proof (cases "survey_run_status st = SURVEY_SKIPPING")
  case True
  with assms show ?thesis by (simp add: SurveyQuestionLoop_def)
next
  case False
  show ?thesis
  proof (cases "trialStage st")
    case STAGE_0
    with False assms show ?thesis
      by (auto simp: SurveyQuestionLoop_def split: option.splits if_splits)
  next
    case TAKING_DISCRETE
    with False assms obtain keyList where
      "taking_discrete (eventManager_getKeys keyList p) (now p) st = Inr st'"
      by (auto simp: SurveyQuestionLoop_def repeat_def split: sum.splits)
    then show ?thesis using assms(2,3) by (rule taking_discrete_display)
  next
    case TAKING_CONTINUOUS
    with False assms(1) have
      "st' = st \<or> (\<exists>k ks. taking_continuous k ks (now p) st = Inr st')"
      by (auto simp del: taking_continuous.simps simp: SurveyQuestionLoop_def repeat_def
          split: sum.splits list.splits)
    then show ?thesis
    proof
      assume "st' = st"
      with assms(2,3) show ?thesis by simp
    next
      assume "\<exists>k ks. taking_continuous k ks (now p) st = Inr st'"
      then obtain k ks where "taking_continuous k ks (now p) st = Inr st'" by blast
      then show ?thesis using assms(2,3) by (rule taking_continuous_display)
    qed
  next
    case DISPLAY_RESPONSE
    with assms show ?thesis by simp
  next
    case STAGE_DONE
    with False assms show ?thesis by (simp add: SurveyQuestionLoop_def)
  qed
qed

text \<open>
  Claim C6. A question enters the displaying stage with the clock reset at that call, so
  the clock then reads the time since the answer was captured. While a question that is
  being asked is in the displaying stage, any number of calls at which the clock reads
  less than the linger time leave the state as it is, the stage included; and the first
  call at which it reads the linger time or more moves the stage to done or back to stage
  0, provided the follow-up question, if there is one, can be built.
\<close>

theorem linger_invariant:
  "(SurveyQuestionLoop p0 st0 = Inr (ev, st) \<and> trialStage st0 \<noteq> DISPLAY_RESPONSE \<and>
      trialStage st = DISPLAY_RESPONSE \<longrightarrow> clock_reset_at st = now p0 \<and> follow_up_builds st \<or>
        clock_reset_at st = now p0 \<and>
        (\<exists>sp. specify st = Follow sp \<and> input_type (specify_input sp) = DISCRETE \<and>
               input_inputs (specify_input sp) = None)) \<and>
   (trialStage st = DISPLAY_RESPONSE \<and> survey_run_status st \<noteq> SURVEY_SKIPPING \<and>
    (\<forall>p\<in>set ps. now p - clock_reset_at st < linger st) \<longrightarrow>
      run_tasks (LoopTask # tks) ps st = Inr (LoopTask # tks, st)) \<and>
   (trialStage st = DISPLAY_RESPONSE \<and> survey_run_status st \<noteq> SURVEY_SKIPPING \<and>
    (\<forall>p\<in>set ps. now p - clock_reset_at st < linger st) \<and>
    linger st \<le> now p' - clock_reset_at st \<and> follow_up_builds st \<longrightarrow>
      (\<exists>st'. run_tasks (LoopTask # tks) (ps @ [p']) st = Inr (LoopTask # tks, st') \<and>
             (trialStage st' = STAGE_DONE \<or> trialStage st' = STAGE_0)))"
proof (intro conjI impI)
  assume a: "SurveyQuestionLoop p0 st0 = Inr (ev, st) \<and> trialStage st0 \<noteq> DISPLAY_RESPONSE \<and>
      trialStage st = DISPLAY_RESPONSE"
  then have e: "clock_reset_at st = now p0 \<and> currentInput st \<noteq> None \<and> specify st \<noteq> EmptyObject"
    using loop_enters_display by blast
  show "clock_reset_at st = now p0 \<and> follow_up_builds st \<or>
        clock_reset_at st = now p0 \<and>
        (\<exists>sp. specify st = Follow sp \<and> input_type (specify_input sp) = DISCRETE \<and>
               input_inputs (specify_input sp) = None)"
  proof (cases "specify st")
    case EmptyObject
    with e show ?thesis by simp
  next
    case NoSpecify
    with e show ?thesis by (simp add: follow_up_builds_def)
  next
    case (Follow sp)
    with e show ?thesis
      by (cases "input_type (specify_input sp)") (auto simp: follow_up_builds_def)
  qed
next
  assume a: "trialStage st = DISPLAY_RESPONSE \<and> survey_run_status st \<noteq> SURVEY_SKIPPING \<and>
    (\<forall>p\<in>set ps. now p - clock_reset_at st < linger st)"
  then have "run_tasks (LoopTask # tks) (ps @ []) st = run_tasks (LoopTask # tks) [] st"
    using run_display_early by blast
  then show "run_tasks (LoopTask # tks) ps st = Inr (LoopTask # tks, st)" by simp
next
  assume a: "trialStage st = DISPLAY_RESPONSE \<and> survey_run_status st \<noteq> SURVEY_SKIPPING \<and>
    (\<forall>p\<in>set ps. now p - clock_reset_at st < linger st) \<and>
    linger st \<le> now p' - clock_reset_at st \<and> follow_up_builds st"
  then have early: "run_tasks (LoopTask # tks) (ps @ [p']) st = run_tasks (LoopTask # tks) [p'] st"
    using run_display_early by blast
  from a obtain st' where d: "display_response (now p') st = Inr st'"
    and stage: "trialStage st' = STAGE_DONE \<or> trialStage st' = STAGE_0"
    using display_late by blast
  from a d have "SurveyQuestionLoop p' st = Inr (FLIP_REPEAT, st')"
    by (simp add: SurveyQuestionLoop_def repeat_def)
  then have "run_tasks (LoopTask # tks) [p'] st = Inr (LoopTask # tks, st')"
    by (simp add: exec_task_def)
  with early stage show "\<exists>st'. run_tasks (LoopTask # tks) (ps @ [p']) st = Inr (LoopTask # tks, st') \<and>
             (trialStage st' = STAGE_DONE \<or> trialStage st' = STAGE_0)"
    by simp
qed

theorem linger_invariant_witness:
  "SurveyQuestionLoop (call_at 1 [''y'']) smoker_asked = Inr (FLIP_REPEAT, smoker_answered) \<and>
   trialStage smoker_asked \<noteq> DISPLAY_RESPONSE \<and>
   trialStage smoker_answered = DISPLAY_RESPONSE \<and>
   clock_reset_at smoker_answered = now (call_at 1 [''y'']) \<and>
   follow_up_builds smoker_answered \<and>
   survey_run_status smoker_answered \<noteq> SURVEY_SKIPPING \<and>
   list_all (\<lambda>p. now p - clock_reset_at smoker_answered < linger smoker_answered)
     [call_at (6 / 5) [], call_at (7 / 5) [''n'']] \<and>
   run_tasks [LoopTask, EndTask] [call_at (6 / 5) [], call_at (7 / 5) [''n'']] smoker_answered =
     Inr ([LoopTask, EndTask], smoker_answered) \<and>
   linger smoker_answered \<le> now (call_at (3 / 2) []) - clock_reset_at smoker_answered \<and>
   (\<exists>st'. run_tasks [LoopTask, EndTask]
            ([call_at (6 / 5) [], call_at (7 / 5) [''n'']] @ [call_at (3 / 2) []]) smoker_answered =
              Inr ([LoopTask, EndTask], st') \<and>
          (trialStage st' = STAGE_DONE \<or> trialStage st' = STAGE_0))"
proof -
  let ?early = "[call_at (6 / 5) [], call_at (7 / 5) [''n'']]"
  have step: "SurveyQuestionLoop (call_at 1 [''y'']) smoker_asked = Inr (FLIP_REPEAT, smoker_answered)"
    unfolding smoker_answered_eq unfolding smoker_asked_eq
    by (simp add: smoker_question_def survey_defs)
  have before: "trialStage smoker_asked \<noteq> DISPLAY_RESPONSE"
    by (simp add: smoker_asked_eq)
  have stage: "trialStage smoker_answered = DISPLAY_RESPONSE"
    and status: "survey_run_status smoker_answered \<noteq> SURVEY_SKIPPING"
    and clock: "clock_reset_at smoker_answered = 1"
    and wait: "linger smoker_answered = 1 / 2"
    by (simp_all add: smoker_answered_eq smoker_asked_eq start_state_def)
  have builds: "follow_up_builds smoker_answered"
    by (simp add: follow_up_builds_def smoker_answered_eq smoker_asked_eq)
  have early: "\<forall>p\<in>set ?early. now p - clock_reset_at smoker_answered < linger smoker_answered"
    by (simp add: clock wait call_at_def)
  have late: "linger smoker_answered \<le> now (call_at (3 / 2) []) - clock_reset_at smoker_answered"
    by (simp add: clock wait call_at_def)
  note inst = linger_invariant [of "call_at 1 [''y'']" smoker_asked FLIP_REPEAT smoker_answered
      ?early "[EndTask]" "call_at (3 / 2) []"]
  from inst stage status early
  have stays: "run_tasks [LoopTask, EndTask] ?early smoker_answered =
                 Inr ([LoopTask, EndTask], smoker_answered)"
    by blast
  from inst stage status early late builds
  have moves: "\<exists>st'. run_tasks [LoopTask, EndTask] (?early @ [call_at (3 / 2) []]) smoker_answered =
                       Inr ([LoopTask, EndTask], st') \<and>
                     (trialStage st' = STAGE_DONE \<or> trialStage st' = STAGE_0)"
    by blast
  from early have early': "list_all (\<lambda>p. now p - clock_reset_at smoker_answered < linger smoker_answered) ?early"
    by (simp add: list_all_iff)
  have clock': "clock_reset_at smoker_answered = now (call_at 1 [''y''])"
    by (simp add: clock call_at_def)
  from step before stage clock' builds status early' stays late moves show ?thesis
    by blast
qed

section \<open>Survey questions module: emitted records\<close>

text \<open>
  What the code does. \<^verbatim>\<open>_SurveyQuestionEnd\<close> hands the current record to the sink
  once unless the status is skipping, and a whole iteration of a question (begin, loop, end,
  finish) that runs to its end adds exactly one sink call, for that question's index,
  unless the begin returned at once, in which case it changes nothing.
\<close>

lemma buildLoopStimuli_keeps:
  "buildLoopStimuli txt inp st = Inr st' \<Longrightarrow>
     sink st' = sink st \<and> psiTurk st' = psiTurk st \<and> survey_set st' = survey_set st \<and>
     currentData st' = currentData st \<and> survey_run_status st' = survey_run_status st"
  by (auto simp: buildLoopStimuli_def Let_def split: input_kind.splits sum.splits)

lemma record_answer_keeps:
  "record_answer ch b t st = Inr st' \<Longrightarrow>
     sink st' = sink st \<and> psiTurk st' = psiTurk st \<and> survey_set st' = survey_set st \<and>
     ar_question_index (currentData st') = ar_question_index (currentData st) \<and>
     survey_run_status st' = survey_run_status st"
  by (auto simp: record_answer_def Let_def split: if_splits option.splits)

lemma taking_discrete_keeps:
  "taking_discrete input t st = Inr st' \<Longrightarrow>
     sink st' = sink st \<and> psiTurk st' = psiTurk st \<and> survey_set st' = survey_set st \<and>
     ar_question_index (currentData st') = ar_question_index (currentData st) \<and>
     survey_run_status st' = survey_run_status st"
  by (auto simp: taking_discrete_def Let_def dest!: record_answer_keeps
      split: list.splits sum.splits option.splits)

lemma currentInput_keyIn_keeps:
  "currentInput_keyIn k st = Inr st' \<Longrightarrow>
     sink st' = sink st \<and> psiTurk st' = psiTurk st \<and> survey_set st' = survey_set st \<and>
     currentData st' = currentData st \<and> survey_run_status st' = survey_run_status st"
  by (auto simp: currentInput_keyIn_def split: option.splits input_kind.splits)

lemma taking_continuous_keeps:
  "taking_continuous k ks t st = Inr st' \<Longrightarrow>
     sink st' = sink st \<and> psiTurk st' = psiTurk st \<and> survey_set st' = survey_set st \<and>
     ar_question_index (currentData st') = ar_question_index (currentData st) \<and>
     survey_run_status st' = survey_run_status st"
proof (induction k ks t st rule: taking_continuous.induct)
  case (1 keyName t st)
  then show ?case by simp
next
  case (2 keyName key rest t st)
  show ?case
  proof (cases "keyName = ''return'' \<or> keyName = ''enter''")
    case True
    with 2(2) show ?thesis
      by (auto dest!: record_answer_keeps split: sum.splits)
  next
    case False
    with 2(2) obtain st1 where k: "currentInput_keyIn keyName st = Inr st1"
      and r: "taking_continuous keyName rest t st1 = Inr st'"
      by (auto split: sum.splits)
    from 2(1) [OF False k r] currentInput_keyIn_keeps [OF k] show ?thesis by simp
  qed
qed

lemma currentInput_reset_keeps:
  "currentInput_reset st = Inr st' \<Longrightarrow>
     sink st' = sink st \<and> psiTurk st' = psiTurk st \<and> survey_set st' = survey_set st \<and>
     currentData st' = currentData st \<and> survey_run_status st' = survey_run_status st \<and>
     specify st' = specify st \<and> skipIndex st' = skipIndex st"
  by (auto simp: currentInput_reset_def split: option.splits input_kind.splits)

lemma display_response_keeps:
  assumes "display_response t st = Inr st'" "survey_run_status st \<noteq> SURVEY_SKIPPING"
  shows "loop_keeps st st'"
proof (cases "linger st \<le> t - clock_reset_at st")
  case False
  with assms show ?thesis by (simp add: display_response_def loop_keeps_def)
next
  case True
  with assms(1) obtain st1 where reset: "currentInput_reset st = Inr st1"
    by (auto simp: display_response_def split: sum.splits)
  note k1 = currentInput_reset_keeps [OF reset]
  show ?thesis
  proof (cases "specify st1")
    case EmptyObject
    with True assms(1) reset show ?thesis by (simp add: display_response_def)
  next
    case NoSpecify
    with True assms reset k1 show ?thesis
      by (auto simp: display_response_def loop_keeps_def split: if_splits)
  next
    case (Follow sp)
    with True assms(1) reset obtain st2 where
      b: "buildLoopStimuli (specify_question sp) (specify_input sp) st1 = Inr st2"
      and st': "st' = st2\<lparr>trialStage := STAGE_0\<rparr>"
      by (auto simp: display_response_def split: sum.splits)
    from buildLoopStimuli_keeps [OF b] k1 assms(2) st' show ?thesis
      by (simp add: loop_keeps_def)
  qed
qed

lemma loop_keeps:
  assumes "SurveyQuestionLoop p st = Inr (ev, st')" "survey_run_status st \<noteq> SURVEY_SKIPPING"
  shows "loop_keeps st st'"
proof (cases "trialStage st")
  case STAGE_0
  with assms show ?thesis
    by (auto simp: SurveyQuestionLoop_def loop_keeps_def split: option.splits)
next
  case TAKING_DISCRETE
  with assms obtain keyList where
    "taking_discrete (eventManager_getKeys keyList p) (now p) st = Inr st'"
    by (auto simp: SurveyQuestionLoop_def repeat_def split: sum.splits)
  from taking_discrete_keeps [OF this] assms(2) show ?thesis by (simp add: loop_keeps_def)
next
  case TAKING_CONTINUOUS
  with assms have "st' = st \<or> (\<exists>k ks. taking_continuous k ks (now p) st = Inr st')"
    by (auto simp del: taking_continuous.simps simp: SurveyQuestionLoop_def repeat_def
        split: sum.splits list.splits)
  then show ?thesis
  proof
    assume "st' = st"
    with assms(2) show ?thesis by (simp add: loop_keeps_def)
  next
    assume "\<exists>k ks. taking_continuous k ks (now p) st = Inr st'"
    then obtain k ks where "taking_continuous k ks (now p) st = Inr st'" by blast
    from taking_continuous_keeps [OF this] assms(2) show ?thesis by (simp add: loop_keeps_def)
  qed
next
  case DISPLAY_RESPONSE
  with assms have "display_response (now p) st = Inr st'"
    by (auto simp: SurveyQuestionLoop_def repeat_def split: sum.splits)
  then show ?thesis using assms(2) by (rule display_response_keeps)
next
  case STAGE_DONE
  with assms show ?thesis by (simp add: SurveyQuestionLoop_def loop_keeps_def)
qed

lemma loop_keeps_trans:
  "loop_keeps a b \<Longrightarrow> loop_keeps b c \<Longrightarrow> loop_keeps a c"
  by (simp add: loop_keeps_def)

lemma run_loop_keeps:
  "run_tasks (LoopTask # tks) ps st = Inr ([], st') \<Longrightarrow> survey_run_status st \<noteq> SURVEY_SKIPPING \<Longrightarrow>
     \<exists>st2 ps2. loop_keeps st st2 \<and> run_tasks tks ps2 st2 = Inr ([], st')"
proof (induction ps arbitrary: st)
  case Nil
  then show ?case by simp
next
  case (Cons p ps)
  from Cons.prems(1) obtain ev st1 where step: "SurveyQuestionLoop p st = Inr (ev, st1)"
    by (auto simp: exec_task_def split: sum.splits)
  from loop_keeps [OF step Cons.prems(2)] have k: "loop_keeps st st1" .
  show ?case
  proof (cases ev)
    case NEXT
    with Cons.prems(1) step have "run_tasks tks ps st1 = Inr ([], st')"
      by (simp add: exec_task_def)
    with k show ?thesis by blast
  next
    case FLIP_REPEAT
    with Cons.prems(1) step have "run_tasks (LoopTask # tks) ps st1 = Inr ([], st')"
      by (simp add: exec_task_def)
    moreover from k have "survey_run_status st1 \<noteq> SURVEY_SKIPPING" by (simp add: loop_keeps_def)
    ultimately obtain st2 ps2 where "loop_keeps st1 st2" "run_tasks tks ps2 st2 = Inr ([], st')"
      using Cons.IH by blast
    with k show ?thesis using loop_keeps_trans by blast
  qed
qed

lemma run_end_finish:
  "run_tasks [EndTask, FinishTask] ps st = Inr ([], st') \<Longrightarrow> st' = SurveyQuestionEnd st"
proof (cases ps)
  case Nil
  assume "run_tasks [EndTask, FinishTask] ps st = Inr ([], st')"
  with Nil show ?thesis by simp
next
  case (Cons p ps1)
  assume r: "run_tasks [EndTask, FinishTask] ps st = Inr ([], st')"
  show ?thesis
  proof (cases ps1)
    case Nil
    with Cons r show ?thesis by (simp add: exec_task_def)
  next
    case (Cons p2 ps2)
    with \<open>ps = p # ps1\<close> r show ?thesis by (simp add: exec_task_def)
  qed
qed

lemma begin_visited:
  assumes "SurveyQuestionBegin q t st = Inr st1" "\<not> begin_returns_at_once st"
  shows "sink st1 = sink st \<and> psiTurk st1 = psiTurk st \<and> survey_set st1 = survey_set st \<and>
         ar_question_index (currentData st1) = Some (q_index q) \<and>
         survey_run_status st1 \<noteq> SURVEY_SKIPPING"
proof (cases "survey_run_status st = SURVEY_SKIPPING")
  case True
  with assms have "buildLoopStimuli (q_question q) (q_input q)
      (st\<lparr>skipIndex := NoneString, survey_run_status := SURVEY_CONTINUING,
          clock_reset_at := t, currentData := fresh_data (survey_set st) q,
          specify := EmptyObject, skipIndex := NoneString, trialStage := STAGE_0\<rparr>) = Inr st1"
    unfolding SurveyQuestionBegin_def begin_returns_at_once_def Let_def by simp
  from buildLoopStimuli_keeps [OF this] show ?thesis
    by (simp add: fresh_data_def)
next
  case False
  with assms have "buildLoopStimuli (q_question q) (q_input q)
      (st\<lparr>clock_reset_at := t, currentData := fresh_data (survey_set st) q,
          specify := EmptyObject, skipIndex := NoneString, trialStage := STAGE_0\<rparr>) = Inr st1"
    unfolding SurveyQuestionBegin_def begin_returns_at_once_def Let_def by simp
  from buildLoopStimuli_keeps [OF this] False show ?thesis
    by (simp add: fresh_data_def)
qed

lemma end_emits:
  assumes "survey_run_status st \<noteq> SURVEY_SKIPPING"
  shows "sink (SurveyQuestionEnd st) =
           sink st @ [if psiTurk st
                      then RecordUnstructuredData (survey_set st, ar_question_index (currentData st)) (currentData st)
                      else AddData (survey_set st, ar_question_index (currentData st)) (currentData st)]"
  using assms by (simp add: SurveyQuestionEnd_def Let_def)

lemma question_iteration:
  assumes "run_tasks (question_tasks q) ps st = Inr ([], st')"
  shows "if begin_returns_at_once st then st' = st
         else \<exists>d. ar_question_index d = Some (q_index q) \<and>
                sink st' = sink st @ [if psiTurk st
                                      then RecordUnstructuredData (survey_set st, Some (q_index q)) d
                                      else AddData (survey_set st, Some (q_index q)) d]"
proof (cases ps)
  case Nil
  with assms show ?thesis by (simp add: question_tasks_def)
next
  case (Cons p ps1)
  show ?thesis
  proof (cases "begin_returns_at_once st")
    case True
    then have b: "SurveyQuestionBegin q (now p) st = Inr st"
      by (simp add: SurveyQuestionBegin_def begin_returns_at_once_def)
    from True have l: "\<And>p'. SurveyQuestionLoop p' st = Inr (NEXT, st)"
      by (simp add: SurveyQuestionLoop_def begin_returns_at_once_def)
    from True have e: "SurveyQuestionEnd st = st"
      by (simp add: SurveyQuestionEnd_def begin_returns_at_once_def)
    from assms Cons b have r1: "run_tasks [LoopTask, EndTask, FinishTask] ps1 st = Inr ([], st')"
      by (simp add: question_tasks_def exec_task_def)
    then obtain p2 ps2 where ps1: "ps1 = p2 # ps2" by (cases ps1) auto
    with r1 l have "run_tasks [EndTask, FinishTask] ps2 st = Inr ([], st')"
      by (simp add: exec_task_def)
    from run_end_finish [OF this] e True show ?thesis by simp
  next
    case False
    from assms Cons obtain st1 where b: "SurveyQuestionBegin q (now p) st = Inr st1"
      and r1: "run_tasks [LoopTask, EndTask, FinishTask] ps1 st1 = Inr ([], st')"
      by (auto simp: question_tasks_def exec_task_def split: sum.splits)
    note v = begin_visited [OF b False]
    then have "survey_run_status st1 \<noteq> SURVEY_SKIPPING" by simp
    from run_loop_keeps [OF r1 this] obtain st2 ps2 where k: "loop_keeps st1 st2"
      and r2: "run_tasks [EndTask, FinishTask] ps2 st2 = Inr ([], st')"
      by blast
    from run_end_finish [OF r2] have st': "st' = SurveyQuestionEnd st2" .
    from k have ns: "survey_run_status st2 \<noteq> SURVEY_SKIPPING" by (simp add: loop_keeps_def)
    from k v have idx: "ar_question_index (currentData st2) = Some (q_index q)"
      and same: "sink st2 = sink st" "psiTurk st2 = psiTurk st" "survey_set st2 = survey_set st"
      by (simp_all add: loop_keeps_def)
    from end_emits [OF ns] st' idx same
    have "sink st' = sink st @ [if psiTurk st
                                then RecordUnstructuredData (survey_set st, Some (q_index q)) (currentData st2)
                                else AddData (survey_set st, Some (q_index q)) (currentData st2)]"
      by simp
    with idx False show ?thesis by auto
  qed
qed

lemma end_while_skipping:
  "survey_run_status st = SURVEY_SKIPPING \<Longrightarrow> SurveyQuestionEnd st = st"
  by (simp add: SurveyQuestionEnd_def)

lemma end_begin_skip:
  "survey_run_status st = SURVEY_BEGIN_SKIP \<Longrightarrow>
     survey_run_status (SurveyQuestionEnd st) = SURVEY_SKIPPING"
  by (simp add: SurveyQuestionEnd_def Let_def)

lemma pets_skipping_run:
  "run_tasks (concat (map question_tasks [pets_question, dogs_question])) (take 11 pets_calls)
     start_state = Inr ([], pets_skipping)"
  by (simp add: pets_skipping_def pets_calls_def pets_question_def dogs_question_def
      yes_no_def survey_defs)

lemma pets_skipping_status:
  "survey_run_status pets_skipping = SURVEY_SKIPPING"
  "skipIndex pets_skipping = Number 3"
  by (simp_all add: pets_skipping_def pets_calls_def pets_question_def dogs_question_def
      yes_no_def survey_defs)

lemma pets_skipping_sink:
  "sink pets_skipping =
     [AddData (''demo'', Some 1)
        \<lparr> ar_survey = Some ''demo'', ar_question_index = Some 1,
          ar_question = Some ''Any pets?'', ar_question_type = Some DISCRETE,
          ar_choice = Key ''n'', ar_RT = Some 1, ar_value = Some ''No'',
          ar_specify = Some [] \<rparr>]"
  by (simp add: pets_skipping_def pets_calls_def pets_question_def dogs_question_def
      yes_no_def survey_defs)

text \<open>
  Claim C4 fails on the code. After the answer \<^verbatim>\<open>n\<close> to the question of index 1, which
  carries a skip to index 3, and the question of index 2, the module is skipping with the
  pending target 3 and the sink holds the record of the first question. The question of
  index 3 is the skip target, so it is not to be skipped and is due exactly one record.
  Its four functions run to their end with \<^verbatim>\<open>y\<close> held at each call and leave the module as
  it was: the begin returns at once, and the sink still holds the first record alone.
\<close>

theorem skip_target_emits_no_record:
  "run_tasks (concat (map question_tasks [pets_question, dogs_question])) (take 11 pets_calls)
     start_state = Inr ([], pets_skipping) \<and>
   survey_run_status pets_skipping = SURVEY_SKIPPING \<and>
   skipIndex pets_skipping = Number (q_index garden_question) \<and>
   begin_returns_at_once pets_skipping \<and>
   run_tasks (question_tasks garden_question) garden_calls pets_skipping = Inr ([], pets_skipping) \<and>
   sink pets_skipping =
     [AddData (''demo'', Some 1)
        \<lparr> ar_survey = Some ''demo'', ar_question_index = Some 1,
          ar_question = Some ''Any pets?'', ar_question_type = Some DISCRETE,
          ar_choice = Key ''n'', ar_RT = Some 1, ar_value = Some ''No'',
          ar_specify = Some [] \<rparr>]"
proof -
  note status = pets_skipping_status(1) and target = pets_skipping_status(2)
  have idx: "q_index garden_question = 3" by (simp add: garden_question_def)
  have at_once: "begin_returns_at_once pets_skipping"
    by (simp add: begin_returns_at_once_def status target this_question_index_def)
  have third_begin: "\<And>t. SurveyQuestionBegin garden_question t pets_skipping = Inr pets_skipping"
    by (simp add: SurveyQuestionBegin_def status target this_question_index_def)
  have third_loop: "\<And>p. SurveyQuestionLoop p pets_skipping = Inr (NEXT, pets_skipping)"
    by (simp add: SurveyQuestionLoop_def status)
  have third_end: "SurveyQuestionEnd pets_skipping = pets_skipping"
    by (simp add: SurveyQuestionEnd_def status)
  have third: "run_tasks (question_tasks garden_question) garden_calls pets_skipping =
                 Inr ([], pets_skipping)"
    by (simp add: question_tasks_def garden_calls_def exec_task_def third_begin third_loop
        third_end)
  from pets_skipping_run status target idx at_once third pets_skipping_sink show ?thesis
    by simp
qed

section \<open>Survey questions module: where the code departs from its description\<close>

lemma begin_while_skipping:
  "survey_run_status st = SURVEY_SKIPPING \<Longrightarrow> skipIndex st = Number T \<Longrightarrow>
     SurveyQuestionBegin q t st = Inr st"
  by (simp add: SurveyQuestionBegin_def this_question_index_def)

text \<open>
  Claim C1 fails on the code. The answer \<^verbatim>\<open>n\<close> to the question of index 1 carries a skip
  to index 3. After it the module is skipping with target 3; \<^verbatim>\<open>_SurveyQuestionBegin\<close> on
  the question of index 3 returns at once and changes nothing, and the whole survey ends
  with the status still skipping and the record of the first question alone, although
  \<^verbatim>\<open>y\<close> was held during the calls of the third question.
\<close>

theorem skip_target_is_skipped:
  "run_tasks (concat (map question_tasks [pets_question, dogs_question])) (take 11 pets_calls)
     start_state = Inr ([], pets_skipping) \<and>
   survey_run_status pets_skipping = SURVEY_SKIPPING \<and>
   skipIndex pets_skipping = Number 3 \<and>
   q_index garden_question = 3 \<and>
   SurveyQuestionBegin garden_question 3 pets_skipping = Inr pets_skipping \<and>
   run_tasks (concat (map question_tasks [pets_question, dogs_question, garden_question]))
     pets_calls start_state = Inr ([], pets_skipping) \<and>
   sink pets_skipping =
     [AddData (''demo'', Some 1)
        \<lparr> ar_survey = Some ''demo'', ar_question_index = Some 1,
          ar_question = Some ''Any pets?'', ar_question_type = Some DISCRETE,
          ar_choice = Key ''n'', ar_RT = Some 1, ar_value = Some ''No'',
          ar_specify = Some [] \<rparr>]"
proof -
  have run2: "run_tasks (concat (map question_tasks [pets_question, dogs_question]))
      (take 11 pets_calls) start_state = Inr ([], pets_skipping)"
    by (simp add: pets_skipping_def pets_calls_def pets_question_def dogs_question_def
        yes_no_def survey_defs)
  have status: "survey_run_status pets_skipping = SURVEY_SKIPPING"
    and target: "skipIndex pets_skipping = Number 3"
    and out: "sink pets_skipping =
      [AddData (''demo'', Some 1)
        \<lparr> ar_survey = Some ''demo'', ar_question_index = Some 1,
          ar_question = Some ''Any pets?'', ar_question_type = Some DISCRETE,
          ar_choice = Key ''n'', ar_RT = Some 1, ar_value = Some ''No'',
          ar_specify = Some [] \<rparr>]"
    by (simp_all add: pets_skipping_def pets_calls_def pets_question_def dogs_question_def
        yes_no_def survey_defs)
  have third: "SurveyQuestionBegin garden_question 3 pets_skipping = Inr pets_skipping"
    using status target by (rule begin_while_skipping)
  have run3: "run_tasks (concat (map question_tasks [pets_question, dogs_question, garden_question]))
      pets_calls start_state = Inr ([], pets_skipping)"
    by (simp add: pets_skipping_def pets_calls_def pets_question_def dogs_question_def
        garden_question_def yes_no_def survey_defs)
  have idx: "q_index garden_question = 3" by (simp add: garden_question_def)
  from run2 status target idx third run3 out show ?thesis by simp
qed

lemma taking_continuous_first_key:
  "keyName \<noteq> ''return'' \<Longrightarrow> keyName \<noteq> ''enter'' \<Longrightarrow> currentInput st = Some CONTINUOUS \<Longrightarrow>
     taking_continuous keyName ks t st =
       Inr (st\<lparr>continuousInput := (keyIn keyName ^^ length ks) (continuousInput st)\<rparr>)"
proof (induction ks arbitrary: st)
  case Nil
  then show ?case by simp
next
  case (Cons key rest)
  let ?st1 = "st\<lparr>continuousInput := keyIn keyName (continuousInput st)\<rparr>"
  from Cons.prems have k: "currentInput_keyIn keyName st = Inr ?st1"
    by (simp add: currentInput_keyIn_def)
  from Cons.prems have "currentInput ?st1 = Some CONTINUOUS" by simp
  from Cons.IH [OF Cons.prems(1,2) this] k Cons.prems(1,2) show ?case
    by (simp add: funpow_swap1)
qed

lemma name_asked_eq:
  "name_asked =
     start_state\<lparr>question_text := ''Your initials?'', currentInput := Some CONTINUOUS,
       continuousInput := c_build LETTERS (Some 5) [],
       currentData := fresh_data ''demo'' name_question,
       skipIndex := NoneString, trialStage := TAKING_CONTINUOUS\<rparr>"
  by (simp add: name_asked_def name_question_def survey_defs)

text \<open>
  Claim C2 fails on the code. With \<^verbatim>\<open>a\<close> and \<^verbatim>\<open>b\<close> held at one call of the continuous
  stage, the buffer becomes \<^verbatim>\<open>AA\<close>, where appending each key under its own name gives
  \<^verbatim>\<open>AB\<close>; with \<^verbatim>\<open>a\<close> and \<^verbatim>\<open>enter\<close> held, the buffer becomes \<^verbatim>\<open>AA\<close> as well and the
  answer is not submitted.
\<close>

theorem continuous_poll_repeats_first_key:
  "SurveyQuestionLoop (call_at 1 [''a'', ''b'']) name_asked =
     Inr (FLIP_REPEAT, name_asked\<lparr>continuousInput := (continuousInput name_asked)\<lparr>c_text := ''AA''\<rparr>\<rparr>) \<and>
   SurveyQuestionLoop (call_at 1 [''a'', ''enter'']) name_asked =
     Inr (FLIP_REPEAT, name_asked\<lparr>continuousInput := (continuousInput name_asked)\<lparr>c_text := ''AA''\<rparr>\<rparr>) \<and>
   trialStage name_asked = TAKING_CONTINUOUS \<and>
   c_text (continuousInput name_asked) = [] \<and>
   c_text (fold keyIn [''a'', ''b''] (continuousInput name_asked)) = ''AB''"
  unfolding name_asked_eq
  by (simp add: survey_defs toUpperCase_def upper_char_def lower_letters_def upper_letters_def
      LETTERS_keys_def FUNCTIONALITY_def)

lemma record_answer_after_key:
  "ar_choice (currentData st) = Key k \<Longrightarrow> ar_specify (currentData st) = Some answers \<Longrightarrow>
     record_answer ch b t st =
       Inr (st\<lparr>currentData := (currentData st)\<lparr>ar_specify := Some (answers @
              [\<lparr> sa_question = question_text st, sa_choice = ch,
                 sa_RT = t - clock_reset_at st, sa_value = b_value b \<rparr>])\<rparr>\<rparr>)"
  by (simp add: record_answer_def Let_def)

lemma record_answer_after_undefined:
  "ar_choice (currentData st) = UndefinedChoice \<Longrightarrow>
     record_answer ch b t st =
       Inr (st\<lparr>currentData := (currentData st)\<lparr>ar_choice := ch,
              ar_RT := Some (t - clock_reset_at st), ar_value := Some (b_value b)\<rparr>\<rparr>)"
  by (simp add: record_answer_def Let_def)

text \<open>
  Claim C3 fails on the code. On a free-text question with a free-text follow-up, the
  respondent answers \<^verbatim>\<open>Y\<close> at time 2 and \<^verbatim>\<open>OK\<close> to the follow-up at time 5. The record
  handed to the sink holds the follow-up's answer as its primary value, with the time since
  the first answer as its reaction time, and an empty list of specify answers.
\<close>

theorem continuous_follow_up_overwrites_primary:
  "run_tasks (question_tasks other_question) other_calls start_state = Inr ([], other_recorded) \<and>
   sink other_recorded =
     [AddData (''demo'', Some 4)
        \<lparr> ar_survey = Some ''demo'', ar_question_index = Some 4,
          ar_question = Some ''Any other?'', ar_question_type = Some CONTINUOUS,
          ar_choice = UndefinedChoice, ar_RT = Some 3, ar_value = Some ''OK'',
          ar_specify = Some [] \<rparr>]"
  by (simp add: other_recorded_def other_calls_def other_question_def elaborate_input_def
      survey_defs toUpperCase_def toLowerCase_def upper_char_def lower_char_def
      lower_letters_def upper_letters_def LETTERS_keys_def FUNCTIONALITY_def)

section \<open>Scheduling a survey: malformed surveys\<close>

lemma map_of_fold_update:
  "map_of (fold (\<lambda>el m. AList.update (f el) (g el) m) els acc) k =
     (case map_of (rev (map (\<lambda>el. (f el, g el)) els)) k of
        None \<Rightarrow> map_of acc k
      | Some v \<Rightarrow> Some v)"
proof (induction els arbitrary: acc)
  case Nil
  then show ?case by simp
next
  case (Cons el els)
  show ?case
    by (simp add: Cons.IH update_conv' map_add_def split: option.splits)
qed

lemma d_build_last_wins:
  "\<exists>d. d_build (Some els) sp sk = Inr d \<and>
       map_of (d_stimuli d) = map_of (rev (map (\<lambda>el. (opt_key el, opt_value el)) els))"
proof -
  have "map_of (fold (\<lambda>el m. AList.update (opt_key el) (opt_value el) m) els []) =
          map_of (rev (map (\<lambda>el. (opt_key el, opt_value el)) els))"
    by (rule ext) (simp add: map_of_fold_update split: option.splits)
  then show ?thesis by (simp add: d_build_def)
qed

lemma begin_without_inputs:
  assumes "\<not> begin_returns_at_once st" "input_type (q_input q) = DISCRETE"
    "input_inputs (q_input q) = None"
  shows "SurveyQuestionBegin q t st = Inl TypeError"
  using assms
  by (simp add: SurveyQuestionBegin_def begin_returns_at_once_def buildLoopStimuli_def d_build_def
      Let_def)

lemma begin_with_inputs:
  assumes "input_type (q_input q) = CONTINUOUS \<or> input_inputs (q_input q) \<noteq> None"
  shows "\<exists>st'. SurveyQuestionBegin q t st = Inr st'"
proof (cases "begin_returns_at_once st")
  case True
  then show ?thesis by (simp add: SurveyQuestionBegin_def begin_returns_at_once_def)
next
  case False
  then show ?thesis
    using buildLoopStimuli_builds [OF assms]
    by (simp add: SurveyQuestionBegin_def begin_returns_at_once_def Let_def)
qed

text \<open>
  Claim C5, as stated, fails: the survey whose first question has two options under one
  key and a skip to an index no question has, and whose second question lacks its
  \<^verbatim>\<open>inputs\<close>, is scheduled without error; its first question is asked, answered and
  recorded (with the value of the later of the two options), and only the begin of the
  second question throws.
\<close>

theorem malformed_survey_is_presented:
  "\<not> distinct (map opt_key double_key) \<and>
   9 \<notin> set (map q_index [twice_question, bare_question]) \<and>
   input_inputs (q_input bare_question) = None \<and>
   generateSurveyQuestionsLoop malformed_survey start_state = Inr (malformed_tasks, start_state) \<and>
   run_tasks malformed_tasks malformed_calls start_state =
     Inr (question_tasks bare_question, malformed_presented) \<and>
   sink malformed_presented =
     [AddData (''demo'', Some 1)
        \<lparr> ar_survey = Some ''demo'', ar_question_index = Some 1,
          ar_question = Some ''Twice?'', ar_question_type = Some DISCRETE,
          ar_choice = Key ''y'', ar_RT = Some 1, ar_value = Some ''No'',
          ar_specify = Some [] \<rparr>] \<and>
   run_tasks malformed_tasks (malformed_calls @ [call_at 3 []]) start_state = Inl TypeError"
proof -
  have shape: "\<not> distinct (map opt_key double_key)"
    "9 \<notin> set (map q_index [twice_question, bare_question])"
    "input_inputs (q_input bare_question) = None"
    by (simp_all add: double_key_def twice_question_def bare_question_def)
  have load: "generateSurveyQuestionsLoop malformed_survey start_state = Inr (malformed_tasks, start_state)"
    by (simp add: generateSurveyQuestionsLoop_def malformed_survey_def malformed_tasks_def
        start_state_def)
  have run: "run_tasks malformed_tasks malformed_calls start_state =
               Inr (question_tasks bare_question, malformed_presented)"
    by (simp add: malformed_presented_def malformed_tasks_def malformed_calls_def
        twice_question_def double_key_def survey_defs)
  have out: "sink malformed_presented =
     [AddData (''demo'', Some 1)
        \<lparr> ar_survey = Some ''demo'', ar_question_index = Some 1,
          ar_question = Some ''Twice?'', ar_question_type = Some DISCRETE,
          ar_choice = Key ''y'', ar_RT = Some 1, ar_value = Some ''No'',
          ar_specify = Some [] \<rparr>]"
    by (simp add: malformed_presented_def malformed_tasks_def malformed_calls_def
        twice_question_def double_key_def survey_defs)
  have throws: "run_tasks malformed_tasks (malformed_calls @ [call_at 3 []]) start_state = Inl TypeError"
    by (simp add: malformed_tasks_def malformed_calls_def twice_question_def bare_question_def
        double_key_def survey_defs)
  from shape load run out throws show ?thesis by simp
qed

text \<open>
  Claim C5, amended. Scheduling a survey checks nothing about its questions: it throws only
  when the question list itself is absent, and otherwise schedules the instructions and
  the four functions of every question, in order. Building a discrete input never fails
  when \<^verbatim>\<open>inputs\<close> is there; of several options under one key the last gives the value.
  A question begins without error when it is continuous or has its \<^verbatim>\<open>inputs\<close>; the begin
  of a discrete question without \<^verbatim>\<open>inputs\<close> throws, at its place in the survey, unless the
  question is skipped.
\<close>

theorem survey_load_unchecked:
  "(sv_questions sv = Some qs \<longrightarrow>
      generateSurveyQuestionsLoop sv st =
        Inr (InstructionsTask (sv_set sv) (sv_instructions sv) # concat (map question_tasks qs),
             st\<lparr>linger := sv_linger sv\<rparr>)) \<and>
   (sv_questions sv = None \<longrightarrow> generateSurveyQuestionsLoop sv st = Inl TypeError) \<and>
   (\<exists>d. d_build (Some els) sp sk = Inr d \<and>
        map_of (d_stimuli d) = map_of (rev (map (\<lambda>el. (opt_key el, opt_value el)) els))) \<and>
   (input_type (q_input q) = CONTINUOUS \<or> input_inputs (q_input q) \<noteq> None \<longrightarrow>
      (\<exists>st'. SurveyQuestionBegin q t st = Inr st')) \<and>
   (\<not> begin_returns_at_once st \<and> input_type (q_input q) = DISCRETE \<and>
    input_inputs (q_input q) = None \<longrightarrow> SurveyQuestionBegin q t st = Inl TypeError)"
proof (intro conjI impI)
  assume "sv_questions sv = Some qs"
  then show "generateSurveyQuestionsLoop sv st =
        Inr (InstructionsTask (sv_set sv) (sv_instructions sv) # concat (map question_tasks qs),
             st\<lparr>linger := sv_linger sv\<rparr>)"
    by (simp add: generateSurveyQuestionsLoop_def)
next
  assume "sv_questions sv = None"
  then show "generateSurveyQuestionsLoop sv st = Inl TypeError"
    by (simp add: generateSurveyQuestionsLoop_def)
next
  show "\<exists>d. d_build (Some els) sp sk = Inr d \<and>
        map_of (d_stimuli d) = map_of (rev (map (\<lambda>el. (opt_key el, opt_value el)) els))"
    by (rule d_build_last_wins)
next
  assume "input_type (q_input q) = CONTINUOUS \<or> input_inputs (q_input q) \<noteq> None"
  then show "\<exists>st'. SurveyQuestionBegin q t st = Inr st'" by (rule begin_with_inputs)
next
  assume "\<not> begin_returns_at_once st \<and> input_type (q_input q) = DISCRETE \<and>
    input_inputs (q_input q) = None"
  then show "SurveyQuestionBegin q t st = Inl TypeError"
    by (simp add: begin_without_inputs)
qed

theorem survey_load_unchecked_witness:
  "sv_questions malformed_survey = Some [twice_question, bare_question] \<and>
   generateSurveyQuestionsLoop malformed_survey start_state = Inr (malformed_tasks, start_state) \<and>
   (\<exists>d. d_build (Some double_key) [] [] = Inr d \<and> map_of (d_stimuli d) ''y'' = Some ''No'') \<and>
   input_inputs (q_input twice_question) \<noteq> None \<and>
   (\<exists>st'. SurveyQuestionBegin twice_question 0 start_state = Inr st') \<and>
   \<not> begin_returns_at_once start_state \<and> input_type (q_input bare_question) = DISCRETE \<and>
   input_inputs (q_input bare_question) = None \<and>
   SurveyQuestionBegin bare_question 0 start_state = Inl TypeError"
proof -
  have qs: "sv_questions malformed_survey = Some [twice_question, bare_question]"
    by (simp add: malformed_survey_def)
  have has: "input_inputs (q_input twice_question) \<noteq> None"
    by (simp add: twice_question_def)
  have bare: "\<not> begin_returns_at_once start_state" "input_type (q_input bare_question) = DISCRETE"
    "input_inputs (q_input bare_question) = None"
    by (simp_all add: begin_returns_at_once_def start_state_def bare_question_def)
  note loaded = survey_load_unchecked
    [of malformed_survey "[twice_question, bare_question]" start_state double_key "[]" "[]"
        twice_question 0]
  note thrown = survey_load_unchecked
    [of malformed_survey "[twice_question, bare_question]" start_state double_key "[]" "[]"
        bare_question 0]
  from loaded qs
  have "generateSurveyQuestionsLoop malformed_survey start_state =
          Inr (InstructionsTask (sv_set malformed_survey) (sv_instructions malformed_survey) #
                 concat (map question_tasks [twice_question, bare_question]),
               start_state\<lparr>linger := sv_linger malformed_survey\<rparr>)"
    by blast
  then have w1: "generateSurveyQuestionsLoop malformed_survey start_state =
                   Inr (malformed_tasks, start_state)"
    by (simp add: malformed_survey_def malformed_tasks_def start_state_def)
  from loaded obtain d where d: "d_build (Some double_key) [] [] = Inr d"
    and m: "map_of (d_stimuli d) = map_of (rev (map (\<lambda>el. (opt_key el, opt_value el)) double_key))"
    by blast
  from m have "map_of (d_stimuli d) ''y'' = Some ''No''"
    by (simp add: double_key_def)
  with d have w2: "\<exists>d. d_build (Some double_key) [] [] = Inr d \<and> map_of (d_stimuli d) ''y'' = Some ''No''"
    by blast
  from loaded has have w3: "\<exists>st'. SurveyQuestionBegin twice_question 0 start_state = Inr st'"
    by blast
  from thrown bare have w4: "SurveyQuestionBegin bare_question 0 start_state = Inl TypeError"
    by blast
  from qs w1 w2 has w3 bare w4 show ?thesis by blast
qed

end
